theory Spec2Isabelle
  imports Main "HOL-Library.Product_Lexorder" "HOL-Library.List_Lexorder"
begin

section \<open>Python values\<close>

text \<open>
  A Python \<open>str\<close> is a sequence of Unicode code points; a code point is a natural number.
  Iterating a \<open>str\<close> yields its one-character strings. Strings compare lexicographically
  by code point and tuples compare lexicographically, as the orders on lists and pairs do
  here.
\<close>

type_synonym pystr = "nat list"

definition lit :: "string \<Rightarrow> pystr" where
  "lit s = map of_char s"

definition chars :: "pystr \<Rightarrow> pystr list" where
  "chars s = map (\<lambda>c. [c]) s"

text \<open>
  A float is \<open>m * 2 ^ e\<close>, an infinity or a NaN. The objects of the program are the ones
  \<open>json.load\<close> can return: \<open>None\<close>, booleans, integers, floats, strings, lists and
  dictionaries with string keys (in insertion order).
\<close>

datatype pyfloat = Finite int int | PosInf | NegInf | NaN

datatype pyobj =
    PNone
  | PBool bool
  | PInt int
  | PFloat pyfloat
  | PStr pystr
  | PList "pyobj list"
  | PDict "(pystr \<times> pyobj) list"

text \<open>Exceptions. \<open>KeyError\<close> carries the missing key, as \<open>dict.__getitem__\<close> raises it.\<close>

datatype error =
    ValueError string
  | RuntimeError string
  | KeyError pyobj
  | TypeError
  | OverflowError
  | NameError string
  | AttributeError
  | FileNotFoundError
  | JSONDecodeError
  | UnicodeDecodeError
  | UnicodeEncodeError

text \<open>
  The exceptions the module raises, with their messages (without the values an f-string
  adds), and the two of \<open>int\<close>.
\<close>

definition AlreadyFitted :: error where
  "AlreadyFitted = ValueError ''Tokenizer is already fitted. Please create a new instance to fit again.''"

definition EmptyVocabulary :: error where
  "EmptyVocabulary = ValueError ''No characters meet the frequency threshold; cannot build vocab.''"

definition InternalInconsistency :: error where
  "InternalInconsistency = ValueError ''Internal mapping inconsistency after fit().''"

definition NotFitted :: error where
  "NotFitted = RuntimeError ''Tokenizer not fitted. Call fit(...) first.''"

definition NotFittedSave :: error where
  "NotFittedSave = RuntimeError ''Tokenizer not fitted. Call fit(...) before save().''"

definition BadStoi :: error where
  "BadStoi = ValueError ''Invalid tokenizer file: missing or bad 'stoi'.''"

definition MissingIds :: error where
  "MissingIds = ValueError ''Invalid tokenizer file: missing 'pad_id'/'unk_id'.''"

definition InconsistentState :: error where
  "InconsistentState = ValueError ''Loaded tokenizer has inconsistent stoi/itos.''"

definition ExpectedPath :: error where
  "ExpectedPath = ValueError ''Expected file path string, got: ''"

definition NoFiles :: error where
  "NoFiles = ValueError ''No files provided to build a corpus.''"

definition BadInput :: error where
  "BadInput = ValueError ''Input should be a string (text or file path) or a list/tuple of file paths.''"

definition NaNToInt :: error where
  "NaNToInt = ValueError ''cannot convert float NaN to integer''"

definition InvalidLiteral :: error where
  "InvalidLiteral = ValueError ''invalid literal for int() with base 10''"

subsection \<open>Dictionaries\<close>

text \<open>
  A \<open>dict\<close> keeps its keys in insertion order: an association list with distinct keys.
  \<open>d[k] = v\<close> overwrites in place or appends.
\<close>

fun dict_set :: "'k \<Rightarrow> 'v \<Rightarrow> ('k \<times> 'v) list \<Rightarrow> ('k \<times> 'v) list" where
  "dict_set k v [] = [(k, v)]"
| "dict_set k v ((k', v') # d) =
     (if k = k' then (k, v) # d else (k', v') # dict_set k v d)"

definition dict_get :: "('k \<times> 'v) list \<Rightarrow> 'k \<Rightarrow> 'v \<Rightarrow> 'v" where
  "dict_get d k dflt = (case map_of d k of None \<Rightarrow> dflt | Some v \<Rightarrow> v)"

definition keys :: "('k \<times> 'v) list \<Rightarrow> 'k list" where
  "keys d = map fst d"

definition getitem :: "('k \<Rightarrow> pyobj) \<Rightarrow> ('k \<times> 'v) list \<Rightarrow> 'k \<Rightarrow> error + 'v" where
  "getitem wrap d k = (case map_of d k of None \<Rightarrow> Inl (KeyError (wrap k)) | Some v \<Rightarrow> Inr v)"

text \<open>\<open>[f(x) for x in xs]\<close> where \<open>f\<close> may raise: the first exception ends the loop.\<close>

fun traverse :: "('a \<Rightarrow> error + 'b) \<Rightarrow> 'a list \<Rightarrow> error + 'b list" where
  "traverse f [] = Inr []"
| "traverse f (x # xs) =
     (case f x of
        Inl e \<Rightarrow> Inl e
      | Inr y \<Rightarrow> (case traverse f xs of Inl e \<Rightarrow> Inl e | Inr ys \<Rightarrow> Inr (y # ys)))"

text \<open>A dict comprehension \<open>{k: v for ...}\<close> over the pairs it produces, in order.\<close>

definition dict_of :: "('k \<times> 'v) list \<Rightarrow> ('k \<times> 'v) list" where
  "dict_of kvs = foldl (\<lambda>d (k, v). dict_set k v d) [] kvs"

text \<open>\<open>collections.Counter(xs)\<close>: one pass, counting each element under its first occurrence.\<close>

definition Counter :: "'a list \<Rightarrow> ('a \<times> int) list" where
  "Counter xs = foldl (\<lambda>d x. dict_set x (dict_get d x 0 + 1) d) [] xs"

section \<open>The tokenizer\<close>

record tokenizer =
  stoi :: "(pystr \<times> int) list"
  itos :: "(int \<times> pystr) list"
  pad_id :: pyobj
  unk_id :: pyobj
  vocab_size :: int

definition init :: tokenizer where
  "init = \<lparr>stoi = [], itos = [], pad_id = PNone, unk_id = PNone, vocab_size = 0\<rparr>"

definition is_fitted :: "tokenizer \<Rightarrow> bool" where
  "is_fitted self = (stoi self \<noteq> [] \<and> itos self \<noteq> [])"

definition PAD :: pystr where
  "PAD = lit ''<PAD>''"

definition UNK :: pystr where
  "UNK = lit ''<UNK>''"

text \<open>\<open>{i: s for s, i in stoi.items()}\<close>\<close>

definition invert :: "(pystr \<times> int) list \<Rightarrow> (int \<times> pystr) list" where
  "invert d = dict_of (map (\<lambda>(s, i). (i, s)) d)"

text \<open>\<open>any(itos[stoi[s]] != s for s in stoi)\<close>\<close>

definition inconsistent :: "(pystr \<times> int) list \<Rightarrow> (int \<times> pystr) list \<Rightarrow> bool" where
  "inconsistent st it =
     list_ex (\<lambda>s. (case map_of st s of None \<Rightarrow> True
                   | Some i \<Rightarrow> map_of it i \<noteq> Some s)) (keys st)"

text \<open>The loop of \<open>fit\<close> that gives the sorted characters their ids.\<close>

definition assign :: "(pystr \<times> int) list \<times> int \<Rightarrow> pystr \<times> int \<Rightarrow> (pystr \<times> int) list \<times> int" where
  "assign acc item =
     (case acc of (st, idx) \<Rightarrow>
        if fst item \<in> set (keys st) then (st, idx)
        else (dict_set (fst item) idx st, idx + 1))"

definition sort_items :: "(pystr \<times> int) list \<Rightarrow> (pystr \<times> int) list" where
  "sort_items items = sort_key (\<lambda>x. (- snd x, fst x)) items"

text \<open>Lines 41 to 70 of \<open>fit\<close>: the vocabulary of a corpus.\<close>

definition fit_corpus :: "tokenizer \<Rightarrow> pystr \<Rightarrow> bool \<Rightarrow> int \<Rightarrow> error option \<times> tokenizer" where
  "fit_corpus self corpus include_specials min_freq =
     (let counts = Counter (chars corpus);
          items = filter (\<lambda>(ch, c). c \<ge> min_freq) counts
      in if items = [] \<and> \<not> include_specials
         then (Some EmptyVocabulary, self)
         else
           let items = sort_items items;
               (st0, pad, unk, idx) =
                 (if include_specials
                  then (dict_set UNK 1 (dict_set PAD 0 []), PInt 0, PInt 1, 2)
                  else ([], PNone, PNone, 0));
               st = fst (foldl assign (st0, idx) items);
               self' = self\<lparr>stoi := st, pad_id := pad, unk_id := unk,
                             itos := invert st, vocab_size := int (length st)\<rparr>
           in if st = [] \<or> invert st = [] \<or> inconsistent st (invert st)
              then (Some InternalInconsistency, self')
              else (None, self'))"

subsection \<open>Obtaining the corpus (lines 19 to 38 of \<open>fit\<close>)\<close>

text \<open>
  The argument of \<open>fit\<close> is a string, a list or tuple, or anything else. The file system
  is the collaborator \<open>files\<close>: what every regular file holds, by path, either a text or
  bytes that are not UTF-8, on which \<open>f.read()\<close> raises.
\<close>

datatype source = SrcStr pystr | SrcSeq "pyobj list" | SrcOther

datatype textfile = Text pystr | Undecodable

type_synonym textfiles = "pystr \<Rightarrow> textfile option"

fun join :: "pystr \<Rightarrow> pystr list \<Rightarrow> pystr" where
  "join sep [] = []"
| "join sep [x] = x"
| "join sep (x # y # ys) = x @ sep @ join sep (y # ys)"

definition read_part :: "textfiles \<Rightarrow> pyobj \<Rightarrow> error + pystr" where
  "read_part files p =
     (case p of
        PStr path \<Rightarrow>
          (case files path of
             None \<Rightarrow> Inl ExpectedPath
           | Some Undecodable \<Rightarrow> Inl UnicodeDecodeError
           | Some (Text t) \<Rightarrow> Inr t)
      | _ \<Rightarrow> Inl ExpectedPath)"

definition corpus_of :: "textfiles \<Rightarrow> source \<Rightarrow> error + pystr" where
  "corpus_of files src =
     (case src of
        SrcStr s \<Rightarrow>
          (case files s of
             Some (Text t) \<Rightarrow> Inr t
           | Some Undecodable \<Rightarrow> Inl UnicodeDecodeError
           | None \<Rightarrow> Inr s)
      | SrcSeq ps \<Rightarrow>
          (case traverse (read_part files) ps of
             Inl e \<Rightarrow> Inl e
           | Inr parts \<Rightarrow>
               if parts = [] then Inl NoFiles
               else Inr (join [10] parts))
      | SrcOther \<Rightarrow>
          Inl BadInput)"

definition fit :: "textfiles \<Rightarrow> tokenizer \<Rightarrow> source \<Rightarrow> bool \<Rightarrow> int \<Rightarrow> error option \<times> tokenizer" where
  "fit files self texts_or_paths include_specials min_freq =
     (if is_fitted self
      then (Some AlreadyFitted, self)
      else
        (case corpus_of files texts_or_paths of
           Inl e \<Rightarrow> (Some e, self)
         | Inr corpus \<Rightarrow> fit_corpus self corpus include_specials min_freq))"

subsection \<open>encode, decode, get_vocab_size\<close>

definition lookup_char :: "tokenizer \<Rightarrow> pystr \<Rightarrow> error + pyobj" where
  "lookup_char self ch =
     (case getitem PStr (stoi self) ch of Inl e \<Rightarrow> Inl e | Inr i \<Rightarrow> Inr (PInt i))"

definition encode :: "tokenizer \<Rightarrow> pystr \<Rightarrow> bool \<Rightarrow> error + pyobj list" where
  "encode self text strict =
     (if \<not> is_fitted self then Inl NotFitted
      else if strict then traverse (lookup_char self) (chars text)
      else if unk_id self = PNone then traverse (lookup_char self) (chars text)
      else Inr (map (\<lambda>ch. case map_of (stoi self) ch of
                              None \<Rightarrow> unk_id self
                            | Some i \<Rightarrow> PInt i) (chars text)))"

text \<open>
  \<open>i == x\<close> for an integer \<open>i\<close>: an integer equals an integer, a boolean (as 0 or 1) or a
  float of the same value, and nothing else.
\<close>

definition int_eq :: "int \<Rightarrow> pyobj \<Rightarrow> bool" where
  "int_eq i x =
     (case x of
        PInt n \<Rightarrow> i = n
      | PBool b \<Rightarrow> i = (if b then 1 else 0)
      | PFloat f \<Rightarrow>
          (case f of
             Finite m e \<Rightarrow> (if 0 \<le> e then i = m * 2 ^ nat e else i * 2 ^ nat (- e) = m)
           | _ \<Rightarrow> False)
      | _ \<Rightarrow> False)"

text \<open>The token ids are integers (\<open>List[int]\<close>).\<close>

definition decode :: "tokenizer \<Rightarrow> int list \<Rightarrow> bool \<Rightarrow> error + pystr" where
  "decode self token_ids skip_specials =
     (if \<not> is_fitted self then Inl NotFitted
      else
        let kept =
              (if skip_specials \<and> pad_id self \<noteq> PNone \<and> unk_id self \<noteq> PNone
               then filter (\<lambda>i. \<not> int_eq i (pad_id self) \<and> \<not> int_eq i (unk_id self)) token_ids
               else token_ids)
        in (case traverse (getitem PInt (itos self)) kept of
              Inl e \<Rightarrow> Inl e
            | Inr parts \<Rightarrow> Inr (concat parts)))"

definition get_vocab_size :: "tokenizer \<Rightarrow> error + int" where
  "get_vocab_size self =
     (if \<not> is_fitted self then Inl NotFitted
      else Inr (vocab_size self))"

section \<open>Persistence\<close>

text \<open>
  The names bound at module level when the module has been imported: the imports of
  lines 1 to 4 and the class. A name that is neither here nor a builtin raises
  \<open>NameError\<close> where it is evaluated.
\<close>

definition module_globals :: "string list" where
  "module_globals =
     [''os'', ''Counter'', ''prefix'', ''List'', ''Union'', ''Iterable'', ''CharTokenizer'']"

text \<open>
  A file holds a JSON document, a text that is no JSON document, or bytes that are not
  UTF-8. The document is identified with the object \<open>json.load\<close> returns for it and
  \<open>json.dump\<close> writes for it.
\<close>

datatype content = Json pyobj | NotJson | NotUtf8

text \<open>
  \<open>json.dump\<close> writes with \<open>ensure_ascii=False\<close> to a file opened as UTF-8: a string that
  holds a surrogate code point cannot be written and raises \<open>UnicodeEncodeError\<close>.
\<close>

definition surrogate :: "nat \<Rightarrow> bool" where
  "surrogate c = (55296 \<le> c \<and> c \<le> 57343)"

definition str_encodable :: "pystr \<Rightarrow> bool" where
  "str_encodable s = list_all (\<lambda>c. \<not> surrogate c) s"

fun encodable :: "pyobj \<Rightarrow> bool" where
  "encodable (PStr s) = str_encodable s"
| "encodable (PList xs) = list_all encodable xs"
| "encodable (PDict d) = list_all (\<lambda>kv. str_encodable (fst kv) \<and> encodable (snd kv)) d"
| "encodable _ = True"

type_synonym filesystem = "pystr \<Rightarrow> content option"

text \<open>Lines 101 to 106 of \<open>save\<close>.\<close>

definition payload :: "tokenizer \<Rightarrow> pyobj" where
  "payload self =
     PDict [(lit ''version'', PStr (lit ''char-tokenizer.v1'')),
            (lit ''stoi'', PDict (map (\<lambda>(s, i). (s, PInt i)) (stoi self))),
            (lit ''pad_id'', pad_id self),
            (lit ''unk_id'', unk_id self)]"

text \<open>
  \<open>save\<close> in a module whose global names are \<open>g\<close>. Directory creation, the temporary
  file and the replace are the operating system's and succeed; what is left of them is
  the document at \<open>path\<close>. \<open>tempfile\<close> is evaluated before anything is written; \<open>json\<close>
  is evaluated and \<open>json.dump\<close> runs inside the \<open>try\<close>, whose handler removes the temporary
  file and raises again, so that the file at \<open>path\<close> is as it was.
\<close>

definition save :: "string list \<Rightarrow> tokenizer \<Rightarrow> filesystem \<Rightarrow> pystr \<Rightarrow> error option \<times> filesystem" where
  "save g self fs path =
     (if \<not> is_fitted self
      then (Some NotFittedSave, fs)
      else if ''tempfile'' \<notin> set g then (Some (NameError ''tempfile''), fs)
      else if ''json'' \<notin> set g then (Some (NameError ''json''), fs)
      else if \<not> encodable (payload self) then (Some UnicodeEncodeError, fs)
      else (None, fs(path := Some (Json (payload self)))))"

subsection \<open>load\<close>

fun substring :: "pystr \<Rightarrow> pystr \<Rightarrow> bool" where
  "substring k [] = (k = [])"
| "substring k (c # s) = (take (length k) (c # s) = k \<or> substring k s)"

text \<open>\<open>k in data\<close> for a string \<open>k\<close>\<close>

definition py_contains :: "pystr \<Rightarrow> pyobj \<Rightarrow> error + bool" where
  "py_contains k data =
     (case data of
        PDict d \<Rightarrow> Inr (k \<in> set (keys d))
      | PList xs \<Rightarrow> Inr (PStr k \<in> set xs)
      | PStr s \<Rightarrow> Inr (substring k s)
      | _ \<Rightarrow> Inl TypeError)"

text \<open>\<open>data[k]\<close> for a string \<open>k\<close>\<close>

definition py_getitem :: "pyobj \<Rightarrow> pystr \<Rightarrow> error + pyobj" where
  "py_getitem data k =
     (case data of
        PDict d \<Rightarrow> getitem PStr d k
      | _ \<Rightarrow> Inl TypeError)"

text \<open>
  \<open>int(x)\<close>. The conversion of a string is the interpreter's and is a parameter:
  \<open>atoi s\<close> is the integer \<open>int(s)\<close> returns, \<open>None\<close> where it raises \<open>ValueError\<close>.
\<close>

definition trunc :: "int \<Rightarrow> int \<Rightarrow> int" where
  "trunc m e =
     (if 0 \<le> e then m * 2 ^ nat e
      else if 0 \<le> m then m div 2 ^ nat (- e)
      else - ((- m) div 2 ^ nat (- e)))"

definition py_int :: "(pystr \<Rightarrow> int option) \<Rightarrow> pyobj \<Rightarrow> error + int" where
  "py_int atoi x =
     (case x of
        PInt n \<Rightarrow> Inr n
      | PBool b \<Rightarrow> Inr (if b then 1 else 0)
      | PFloat f \<Rightarrow>
          (case f of
             Finite m e \<Rightarrow> Inr (trunc m e)
           | NaN \<Rightarrow> Inl NaNToInt
           | _ \<Rightarrow> Inl OverflowError)
      | PStr s \<Rightarrow>
          (case atoi s of
             None \<Rightarrow> Inl InvalidLiteral
           | Some n \<Rightarrow> Inr n)
      | _ \<Rightarrow> Inl TypeError)"

text \<open>Lines 139 to 142: the checks before anything is assigned.\<close>

definition validate :: "pyobj \<Rightarrow> error + unit" where
  "validate data =
     (case py_contains (lit ''stoi'') data of
        Inl e \<Rightarrow> Inl e
      | Inr has_stoi \<Rightarrow>
          if \<not> has_stoi then Inl BadStoi
          else
            (case py_getitem data (lit ''stoi'') of
               Inl e \<Rightarrow> Inl e
             | Inr v \<Rightarrow>
                 (case v of
                    PDict _ \<Rightarrow>
                      (case py_contains (lit ''pad_id'') data of
                         Inl e \<Rightarrow> Inl e
                       | Inr has_pad \<Rightarrow>
                           if \<not> has_pad
                           then Inl MissingIds
                           else
                             (case py_contains (lit ''unk_id'') data of
                                Inl e \<Rightarrow> Inl e
                              | Inr has_unk \<Rightarrow>
                                  if \<not> has_unk
                                  then Inl MissingIds
                                  else Inr ()))
                  | _ \<Rightarrow> Inl BadStoi)))"

text \<open>\<open>d.items()\<close>\<close>

definition items :: "pyobj \<Rightarrow> error + (pystr \<times> pyobj) list" where
  "items v = (case v of PDict d \<Rightarrow> Inr d | _ \<Rightarrow> Inl AttributeError)"

text \<open>Line 144: \<open>{str(s): int(i) for s, i in data["stoi"].items()}\<close>; \<open>str\<close> of a string is the string.\<close>

definition convert :: "(pystr \<Rightarrow> int option) \<Rightarrow> pyobj \<Rightarrow> error + (pystr \<times> int) list" where
  "convert atoi data =
     (case py_getitem data (lit ''stoi'') of
        Inl e \<Rightarrow> Inl e
      | Inr v \<Rightarrow>
          (case items v of
             Inl e \<Rightarrow> Inl e
           | Inr kvs \<Rightarrow>
               (case traverse (\<lambda>(s, i). case py_int atoi i of
                                           Inl e \<Rightarrow> Inl e
                                         | Inr n \<Rightarrow> Inr (s, n)) kvs of
                  Inl e \<Rightarrow> Inl e
                | Inr sis \<Rightarrow> Inr (dict_of sis))))"

text \<open>
  Lines 138 to 154 of \<open>load\<close>, from the object \<open>data\<close> that \<open>json.load\<close> returned. Each
  assignment to \<open>self\<close> happens where the source has it: \<open>stoi\<close> at line 144, once its
  comprehension has run; \<open>pad_id\<close> and \<open>unk_id\<close> at lines 145 and 146; \<open>itos\<close> and
  \<open>vocab_size\<close> at lines 149 and 150; the check of line 153 comes last.
\<close>

definition load_data :: "(pystr \<Rightarrow> int option) \<Rightarrow> tokenizer \<Rightarrow> pyobj \<Rightarrow> error option \<times> tokenizer" where
  "load_data atoi self data =
     (case validate data of
        Inl e \<Rightarrow> (Some e, self)
      | Inr _ \<Rightarrow>
          (case convert atoi data of
             Inl e \<Rightarrow> (Some e, self)
           | Inr st \<Rightarrow>
               let self1 = self\<lparr>stoi := st\<rparr> in
               (case py_getitem data (lit ''pad_id'') of
                  Inl e \<Rightarrow> (Some e, self1)
                | Inr pad \<Rightarrow>
                    let self2 = self1\<lparr>pad_id := pad\<rparr> in
                    (case py_getitem data (lit ''unk_id'') of
                       Inl e \<Rightarrow> (Some e, self2)
                     | Inr unk \<Rightarrow>
                         let self3 = self2\<lparr>unk_id := unk\<rparr>;
                             self4 = self3\<lparr>itos := invert (stoi self3)\<rparr>;
                             self5 = self4\<lparr>vocab_size := int (length (stoi self4))\<rparr>
                         in if inconsistent (stoi self5) (itos self5)
                            then (Some InconsistentState, self5)
                            else (None, self5)))))"

definition load :: "string list \<Rightarrow> (pystr \<Rightarrow> int option) \<Rightarrow> tokenizer \<Rightarrow> filesystem \<Rightarrow> pystr \<Rightarrow> error option \<times> tokenizer" where
  "load g atoi self fs path =
     (case fs path of
        None \<Rightarrow> (Some FileNotFoundError, self)
      | Some c \<Rightarrow>
          if ''json'' \<notin> set g then (Some (NameError ''json''), self)
          else
            (case c of
               NotJson \<Rightarrow> (Some JSONDecodeError, self)
             | NotUtf8 \<Rightarrow> (Some UnicodeDecodeError, self)
             | Json data \<Rightarrow> load_data atoi self data))"

definition from_file :: "string list \<Rightarrow> (pystr \<Rightarrow> int option) \<Rightarrow> filesystem \<Rightarrow> pystr \<Rightarrow> error + tokenizer" where
  "from_file g atoi fs path =
     (case load g atoi init fs path of
        (Some e, _) \<Rightarrow> Inl e
      | (None, tok) \<Rightarrow> Inr tok)"

section \<open>Notions of the specification\<close>

text \<open>
  The frequency of a character in a corpus, and the order of the vocabulary: descending
  frequency, ties by ascending code point.
\<close>

definition spec_freq :: "pystr \<Rightarrow> nat \<Rightarrow> int" where
  "spec_freq corpus c = int (count_list corpus c)"

definition spec_before :: "pystr \<Rightarrow> nat \<Rightarrow> nat \<Rightarrow> bool" where
  "spec_before corpus a b =
     (spec_freq corpus b < spec_freq corpus a \<or>
      (spec_freq corpus a = spec_freq corpus b \<and> a < b))"

text \<open>Consecutive ids from \<open>k\<close> on, in the order of the list.\<close>

fun consecutive :: "int \<Rightarrow> 'a list \<Rightarrow> ('a \<times> int) list" where
  "consecutive k [] = []"
| "consecutive k (x # xs) = (x, k) # consecutive (k + 1) xs"

text \<open>The entries of the two special tokens.\<close>

definition specials :: "(pystr \<times> int) list" where
  "specials = [(PAD, 0), (UNK, 1)]"

text \<open>The inverse of a mapping, entry by entry.\<close>

definition swapped :: "('a \<times> 'b) list \<Rightarrow> ('b \<times> 'a) list" where
  "swapped d = map (\<lambda>(s, i). (i, s)) d"

text \<open>
  The vocabulary of the ordered characters \<open>cs\<close>, and the state of an instance that holds it.
\<close>

definition spec_vocab :: "bool \<Rightarrow> nat list \<Rightarrow> (pystr \<times> int) list" where
  "spec_vocab include_specials cs =
     (if include_specials then specials @ consecutive 2 (chars cs)
      else consecutive 0 (chars cs))"

definition fitted_state :: "tokenizer \<Rightarrow> bool \<Rightarrow> nat list \<Rightarrow> tokenizer" where
  "fitted_state self include_specials cs =
     self\<lparr>stoi := spec_vocab include_specials cs,
          pad_id := (if include_specials then PInt 0 else PNone),
          unk_id := (if include_specials then PInt 1 else PNone),
          itos := swapped (spec_vocab include_specials cs),
          vocab_size := int (length (spec_vocab include_specials cs))\<rparr>"

text \<open>The tokenizer fitted on the text \<open>ab\<close> with the special tokens.\<close>

definition tok_ab :: tokenizer where
  "tok_ab = \<lparr>stoi = [(PAD, 0), (UNK, 1), (lit ''a'', 2), (lit ''b'', 3)],
             itos = [(0, PAD), (1, UNK), (2, lit ''a''), (3, lit ''b'')],
             pad_id = PInt 0, unk_id = PInt 1, vocab_size = 4\<rparr>"

text \<open>No file exists.\<close>

definition no_files :: textfiles where
  "no_files = (\<lambda>_. None)"

text \<open>The state \<open>load\<close> leaves when all its assignments have run.\<close>

definition loaded_state :: "tokenizer \<Rightarrow> (pystr \<times> int) list \<Rightarrow> pyobj \<Rightarrow> pyobj \<Rightarrow> tokenizer" where
  "loaded_state self st pad unk =
     self\<lparr>stoi := st, pad_id := pad, unk_id := unk,
          itos := invert st, vocab_size := int (length st)\<rparr>"

text \<open>
  A document whose \<open>stoi\<close> gives two characters the same id, and an \<open>int\<close> that accepts
  no string.
\<close>

definition bad_doc :: pyobj where
  "bad_doc =
     PDict [(lit ''stoi'', PDict [(lit ''a'', PInt 0), (lit ''b'', PInt 0)]),
            (lit ''pad_id'', PNone),
            (lit ''unk_id'', PNone)]"

definition no_atoi :: "pystr \<Rightarrow> int option" where
  "no_atoi = (\<lambda>_. None)"

text \<open>
  The id of one character of a text: its entry in \<open>stoi\<close>, or the unknown id when it has
  none.
\<close>

definition per_char :: "tokenizer \<Rightarrow> nat \<Rightarrow> pyobj" where
  "per_char tok c = (case map_of (stoi tok) [c] of Some i \<Rightarrow> PInt i | None \<Rightarrow> unk_id tok)"

text \<open>The tokenizer fitted on the text \<open>ab\<close> without the special tokens.\<close>

definition tok_plain :: tokenizer where
  "tok_plain = \<lparr>stoi = [(lit ''a'', 0), (lit ''b'', 1)],
                itos = [(0, lit ''a''), (1, lit ''b'')],
                pad_id = PNone, unk_id = PNone, vocab_size = 2\<rparr>"

text \<open>A file system with no file, and one whose only file holds a saved tokenizer.\<close>

definition no_docs :: filesystem where
  "no_docs = (\<lambda>_. None)"

definition saved_ab :: filesystem where
  "saved_ab = no_docs(lit ''tok.json'' := Some (Json (payload tok_ab)))"

text \<open>
  The ids that \<open>decode\<close> drops before any lookup: with \<open>skip_specials\<close>, and both special
  ids configured, the ids equal to one of them.
\<close>

definition skipped :: "tokenizer \<Rightarrow> bool \<Rightarrow> int \<Rightarrow> bool" where
  "skipped tok skip_specials i =
     (skip_specials \<and> pad_id tok \<noteq> PNone \<and> unk_id tok \<noteq> PNone
      \<and> (int_eq i (pad_id tok) \<or> int_eq i (unk_id tok)))"




text \<open>
  A document whose pad id and unknown id are ids of no character, and the instance that
  holds it.
\<close>

definition absent_doc :: pyobj where
  "absent_doc =
     PDict [(lit ''stoi'', PDict [(lit ''a'', PInt 0)]),
            (lit ''pad_id'', PInt 5),
            (lit ''unk_id'', PInt 6)]"

definition tok_absent :: tokenizer where
  "tok_absent = \<lparr>stoi = [(lit ''a'', 0)], itos = [(0, lit ''a'')],
                 pad_id = PInt 5, unk_id = PInt 6, vocab_size = 1\<rparr>"

section \<open>Dictionaries and counting\<close>

lemma keys_dict_set: "set (keys (dict_set k v d)) = insert k (set (keys d))"
  by (induction d) (force simp: keys_def)+

lemma distinct_dict_set: "distinct (keys d) \<Longrightarrow> distinct (keys (dict_set k v d))"
proof (induction d)
  case Nil
  then show ?case by (simp add: keys_def)
next
  case (Cons p d)
  obtain k' v' where p: "p = (k', v')" by (cases p)
  have "k' \<noteq> k \<Longrightarrow> k' \<notin> set (keys (dict_set k v d))"
    using Cons.prems p by (simp add: keys_dict_set) (simp add: keys_def)
  moreover have "distinct (keys (dict_set k v d))"
    using Cons by (simp add: keys_def)
  ultimately show ?case
    using Cons.prems p by (auto simp: keys_def)
qed

lemma map_of_dict_set: "map_of (dict_set k v d) = (map_of d)(k \<mapsto> v)"
  by (induction d) (auto simp: fun_eq_iff)

lemma dict_set_fresh: "k \<notin> set (keys d) \<Longrightarrow> dict_set k v d = d @ [(k, v)]"
  by (induction d) (auto simp: keys_def)

lemma dict_of_step:
  "distinct (keys (acc @ kvs)) \<Longrightarrow> foldl (\<lambda>d (k, v). dict_set k v d) acc kvs = acc @ kvs"
proof (induction kvs arbitrary: acc)
  case Nil
  then show ?case by simp
next
  case (Cons p kvs)
  obtain k v where p: "p = (k, v)" by (cases p)
  have fresh: "k \<notin> set (keys acc)"
    using Cons.prems p by (auto simp: keys_def)
  have "distinct (keys ((acc @ [(k, v)]) @ kvs))"
    using Cons.prems p by (simp add: keys_def)
  then have "foldl (\<lambda>d (k, v). dict_set k v d) (acc @ [(k, v)]) kvs = (acc @ [(k, v)]) @ kvs"
    by (rule Cons.IH)
  then show ?case
    using fresh p by (simp add: dict_set_fresh)
qed

lemma dict_of_distinct: "distinct (keys kvs) \<Longrightarrow> dict_of kvs = kvs"
  using dict_of_step [of "[]" kvs] by (simp add: dict_of_def)

lemma dict_of_fold_keys:
  "distinct (keys acc) \<Longrightarrow> distinct (keys (foldl (\<lambda>d (k, v). dict_set k v d) acc kvs))"
  by (induction kvs arbitrary: acc) (auto simp: distinct_dict_set split: prod.splits)

lemma distinct_dict_of: "distinct (keys (dict_of kvs))"
  unfolding dict_of_def by (rule dict_of_fold_keys) (simp add: keys_def)

lemma Counter_fold_keys:
  "distinct (keys d) \<Longrightarrow> distinct (keys (foldl (\<lambda>d x. dict_set x (dict_get d x 0 + 1) d) d xs))"
  by (induction xs arbitrary: d) (auto simp: distinct_dict_set)

lemma Counter_fold_set:
  "set (keys (foldl (\<lambda>d x. dict_set x (dict_get d x (0::int) + 1) d) d xs)) = set (keys d) \<union> set xs"
  by (induction xs arbitrary: d) (auto simp: keys_dict_set)

lemma Counter_fold_get:
  "dict_get (foldl (\<lambda>d x. dict_set x (dict_get d x (0::int) + 1) d) d xs) y 0
     = dict_get d y 0 + int (count_list xs y)"
  by (induction xs arbitrary: d) (auto simp: dict_get_def map_of_dict_set split: option.splits)

lemma distinct_Counter: "distinct (keys (Counter xs))"
  unfolding Counter_def by (rule Counter_fold_keys) (simp add: keys_def)

lemma set_keys_Counter: "set (keys (Counter xs)) = set xs"
  by (simp add: Counter_def Counter_fold_set) (simp add: keys_def)

lemma Counter_entry:
  assumes "(x, n) \<in> set (Counter xs)"
  shows "n = int (count_list xs x)"
proof -
  have "map_of (Counter xs) x = Some n"
    using assms distinct_Counter [of xs] by (simp add: keys_def)
  then have "dict_get (Counter xs) x 0 = n"
    by (simp add: dict_get_def)
  then show ?thesis
    using Counter_fold_get [of "[]" xs x] by (simp add: Counter_def dict_get_def)
qed

lemma traverse_all:
  "(\<And>x. x \<in> set xs \<Longrightarrow> f (h x) = Inr (g x)) \<Longrightarrow> traverse f (map h xs) = Inr (map g xs)"
  by (induction xs) auto

lemma traverse_first_failure:
  "(\<And>x. x \<in> set pre \<Longrightarrow> \<exists>y. f x = Inr y) \<Longrightarrow> f x = Inl e
     \<Longrightarrow> traverse f (pre @ x # post) = Inl e"
proof (induction pre)
  case Nil
  then show ?case by simp
next
  case (Cons a pre)
  obtain y where "f a = Inr y"
    using Cons.prems(1) [of a] by auto
  moreover have "traverse f (pre @ x # post) = Inl e"
    using Cons by simp
  ultimately show ?case by simp
qed

section \<open>The assignment loop\<close>

lemma keys_consecutive: "keys (consecutive k xs) = xs"
  by (induction xs arbitrary: k) (auto simp: keys_def)

lemma length_consecutive: "length (consecutive k xs) = length xs"
  by (induction xs arbitrary: k) auto

lemma snd_consecutive: "map snd (consecutive k xs) = map (\<lambda>j. k + int j) [0..<length xs]"
proof (induction xs arbitrary: k)
  case Nil
  then show ?case by simp
next
  case (Cons x xs)
  have "map (\<lambda>j. k + int j) [0..<Suc (length xs)] = k # map (\<lambda>j. k + 1 + int j) [0..<length xs]"
    by (simp add: upt_rec [of 0] map_Suc_upt [symmetric] del: upt_Suc)
  then show ?case
    using Cons.IH [of "k + 1"] by simp
qed

lemma consecutive_ge: "(x, i) \<in> set (consecutive k xs) \<Longrightarrow> k \<le> i \<and> i < k + int (length xs)"
  by (induction xs arbitrary: k) fastforce+

lemma distinct_snd_consecutive: "distinct (map snd (consecutive k xs))"
proof (induction xs arbitrary: k)
  case Nil
  then show ?case by simp
next
  case (Cons x xs)
  have "k \<notin> snd ` set (consecutive (k + 1) xs)"
    using consecutive_ge [of _ k "k + 1" xs] by force
  then show ?case
    using Cons.IH by simp
qed

lemma assign_fold:
  "distinct (map fst its) \<Longrightarrow> set (map fst its) \<inter> set (keys st) = {} \<Longrightarrow>
   foldl assign (st, idx) its
     = (st @ consecutive idx (map fst its), idx + int (length its))"
proof (induction its arbitrary: st idx)
  case Nil
  then show ?case by simp
next
  case (Cons p its)
  have fresh: "fst p \<notin> set (keys st)"
    using Cons.prems by auto
  have step: "assign (st, idx) p = (st @ [(fst p, idx)], idx + 1)"
    using fresh by (simp add: assign_def dict_set_fresh)
  have "set (map fst its) \<inter> set (keys (st @ [(fst p, idx)])) = {}"
    using Cons.prems by (auto simp: keys_def)
  moreover have "distinct (map fst its)"
    using Cons.prems by simp
  ultimately have "foldl assign (st @ [(fst p, idx)], idx + 1) its
     = ((st @ [(fst p, idx)]) @ consecutive (idx + 1) (map fst its), idx + 1 + int (length its))"
    by (rule Cons.IH [rotated])
  then show ?case
    using step by simp
qed

section \<open>The sorted characters\<close>

lemma count_chars: "count_list (chars s) [c] = count_list s c"
  by (induction s) (auto simp: chars_def)

lemma Counter_chars_entry:
  assumes "x \<in> set (Counter (chars corpus))"
  shows "\<exists>c. c \<in> set corpus \<and> x = ([c], spec_freq corpus c)"
proof -
  obtain ch n where x: "x = (ch, n)" by (cases x)
  have "ch \<in> set (keys (Counter (chars corpus)))"
    using assms x by (force simp: keys_def)
  then have "ch \<in> set (chars corpus)"
    by (simp add: set_keys_Counter)
  then obtain c where c: "c \<in> set corpus" "ch = [c]"
    by (auto simp: chars_def)
  have "n = int (count_list (chars corpus) ch)"
    using assms x by (simp add: Counter_entry)
  then have "n = spec_freq corpus c"
    using c by (simp add: count_chars spec_freq_def)
  then show ?thesis using c x by blast
qed

lemma Counter_chars_mem:
  assumes "c \<in> set corpus"
  shows "([c], spec_freq corpus c) \<in> set (Counter (chars corpus))"
proof -
  have "[c] \<in> set (keys (Counter (chars corpus)))"
    using assms by (simp add: set_keys_Counter chars_def)
  then obtain n where n: "([c], n) \<in> set (Counter (chars corpus))"
    by (auto simp: keys_def)
  then obtain c' where "([c], n) = ([c'], spec_freq corpus c')"
    using Counter_chars_entry by blast
  then show ?thesis using n by simp
qed

lemma key_less:
  "((- spec_freq corpus a, [a]) < (- spec_freq corpus b, [b])) = spec_before corpus a b"
  by (auto simp: less_prod_def spec_before_def)

lemma sorted_items_shape:
  fixes corpus :: pystr and mf :: int
  defines "its \<equiv> sort_items (filter (\<lambda>(ch, c). mf \<le> c) (Counter (chars corpus)))"
  shows "\<exists>cs. its = map (\<lambda>c. ([c], spec_freq corpus c)) cs
            \<and> set cs = {c \<in> set corpus. mf \<le> spec_freq corpus c}
            \<and> sorted_wrt (spec_before corpus) cs \<and> distinct cs"
proof -
  let ?cnt = "Counter (chars corpus)"
  let ?g = "\<lambda>c. ([c], spec_freq corpus c)"
  let ?h = "\<lambda>x::pystr \<times> int. hd (fst x)"
  let ?key = "\<lambda>x::pystr \<times> int. (- snd x, fst x)"
  have set_its: "set its = {x \<in> set ?cnt. mf \<le> snd x}"
    by (auto simp: its_def sort_items_def)
  have shape: "\<exists>c. c \<in> set corpus \<and> mf \<le> spec_freq corpus c \<and> x = ?g c" if "x \<in> set its" for x
    using that set_its Counter_chars_entry [of x corpus] by auto
  have gh: "?g (?h x) = x" if "x \<in> set its" for x
    using shape [OF that] by auto
  have its_eq: "its = map ?g (map ?h its)"
    using gh by (simp add: map_idI)
  have "distinct (map fst ?cnt)"
    using distinct_Counter [of "chars corpus"] by (simp add: keys_def)
  then have "distinct ?cnt"
    by (simp add: distinct_map)
  then have d_its: "distinct its"
    by (simp add: its_def sort_items_def)
  have "inj ?key"
    by (auto simp: inj_on_def)
  then have "distinct (map ?key its)"
    using d_its by (simp add: distinct_map inj_on_subset [of _ UNIV])
  moreover have "sorted (map ?key its)"
    by (simp add: its_def sort_items_def)
  ultimately have "sorted_wrt (<) (map ?key its)"
    by (simp add: strict_sorted_iff)
  then have strict: "sorted_wrt (\<lambda>x y. ?key x < ?key y) its"
    by (simp add: sorted_wrt_map)
  have "sorted_wrt (\<lambda>x y. spec_before corpus (?h x) (?h y)) its"
  proof (rule sorted_wrt_mono_rel [OF _ strict])
    fix x y
    assume "x \<in> set its" "y \<in> set its" "?key x < ?key y"
    moreover obtain a where "x = ?g a" using shape [OF \<open>x \<in> set its\<close>] by blast
    moreover obtain b where "y = ?g b" using shape [OF \<open>y \<in> set its\<close>] by blast
    ultimately show "spec_before corpus (?h x) (?h y)"
      using key_less [of corpus a b] by simp
  qed
  then have sorted_cs: "sorted_wrt (spec_before corpus) (map ?h its)"
    by (simp add: sorted_wrt_map)
  have "set (map ?h its) = {c \<in> set corpus. mf \<le> spec_freq corpus c}"
  proof (intro set_eqI iffI)
    fix c
    assume "c \<in> set (map ?h its)"
    then obtain x where x: "x \<in> set its" "c = ?h x" by auto
    then show "c \<in> {c \<in> set corpus. mf \<le> spec_freq corpus c}"
      using shape [OF x(1)] by auto
  next
    fix c
    assume "c \<in> {c \<in> set corpus. mf \<le> spec_freq corpus c}"
    then have "?g c \<in> set its"
      using Counter_chars_mem [of c corpus] set_its by simp
    then have "?h (?g c) \<in> ?h ` set its"
      by (rule imageI)
    then show "c \<in> set (map ?h its)" by simp
  qed
  moreover have "distinct (map ?h its)"
  proof -
    have "inj_on ?h (set its)"
      by (rule inj_onI) (metis gh)
    then show ?thesis
      using d_its by (simp add: distinct_map)
  qed
  ultimately show ?thesis
    using its_eq sorted_cs by blast
qed

section \<open>What \<open>fit\<close> builds\<close>

lemma invert_distinct: "distinct (map snd st) \<Longrightarrow> invert st = swapped st"
  unfolding invert_def swapped_def
  by (rule dict_of_distinct) (simp add: keys_def comp_def case_prod_unfold)

lemma map_of_swapped:
  "distinct (map snd st) \<Longrightarrow> (s, i) \<in> set st \<Longrightarrow> map_of (swapped st) i = Some s"
  unfolding swapped_def
  by (rule map_of_is_SomeI) (auto simp: comp_def case_prod_unfold image_iff intro: bexI [of _ "(s, i)"])

lemma consistent_bij:
  assumes "distinct (map fst st)" and "distinct (map snd st)"
  shows "\<not> inconsistent st (swapped st)"
proof -
  have "map_of st s = Some i \<Longrightarrow> map_of (swapped st) i = Some s" for s i
    using assms(2) by (simp add: map_of_swapped map_of_SomeD)
  moreover have "s \<in> set (keys st) \<Longrightarrow> map_of st s \<noteq> None" for s
    by (simp add: keys_def map_of_eq_None_iff)
  ultimately show ?thesis
    by (auto simp: inconsistent_def list_ex_iff split: option.splits)
qed

text \<open>A mapping with distinct keys and distinct values, with its inverse.\<close>

lemma inverse_pair:
  assumes "distinct (map fst st)" and "distinct (map snd st)"
  shows "(\<forall>s i. map_of st s = Some i \<longrightarrow> map_of (swapped st) i = Some s)
       \<and> (\<forall>i s. map_of (swapped st) i = Some s \<longrightarrow> map_of st s = Some i)
       \<and> length (swapped st) = length st
       \<and> distinct (keys st) \<and> distinct (keys (swapped st))"
proof (intro conjI allI impI)
  fix s i
  assume "map_of st s = Some i"
  then show "map_of (swapped st) i = Some s"
    using assms(2) by (simp add: map_of_swapped map_of_SomeD)
next
  fix i s
  assume "map_of (swapped st) i = Some s"
  then have "(i, s) \<in> set (swapped st)"
    by (rule map_of_SomeD)
  then have "(s, i) \<in> set st"
    by (auto simp: swapped_def)
  then show "map_of st s = Some i"
    using assms(1) by simp
next
  show "length (swapped st) = length st"
    by (simp add: swapped_def)
next
  show "distinct (keys st)"
    using assms(1) by (simp add: keys_def)
next
  have "keys (swapped st) = map snd st"
    by (simp add: keys_def swapped_def comp_def case_prod_unfold)
  then show "distinct (keys (swapped st))"
    using assms(2) by simp
qed

lemma PAD_UNK: "PAD \<noteq> UNK" "length PAD = 5" "length UNK = 5"
  by (simp_all add: PAD_def UNK_def lit_def)

lemma keys_chars: "ch \<in> set (chars cs) \<Longrightarrow> length ch = 1"
  by (auto simp: chars_def)

lemma distinct_chars: "distinct (chars cs) = distinct cs"
  by (simp add: chars_def distinct_map inj_on_def)

lemma keys_spec_vocab:
  "map fst (spec_vocab inc cs) = (if inc then [PAD, UNK] else []) @ chars cs"
  using keys_consecutive [of _ "chars cs"] by (simp add: spec_vocab_def specials_def keys_def)

lemma distinct_keys_spec_vocab: "distinct cs \<Longrightarrow> distinct (map fst (spec_vocab inc cs))"
  using PAD_UNK keys_chars [of PAD cs] keys_chars [of UNK cs]
  by (auto simp: keys_spec_vocab distinct_chars)

lemma distinct_vals_spec_vocab: "distinct (map snd (spec_vocab inc cs))"
proof (cases inc)
  case True
  have "\<And>x i. (x, i) \<in> set (consecutive 2 (chars cs)) \<Longrightarrow> 2 \<le> i"
    using consecutive_ge [of _ _ 2 "chars cs"] by auto
  then have "0 \<notin> snd ` set (consecutive 2 (chars cs))" "1 \<notin> snd ` set (consecutive 2 (chars cs))"
    by force+
  then show ?thesis
    using True by (simp add: spec_vocab_def specials_def distinct_snd_consecutive)
next
  case False
  then show ?thesis by (simp add: spec_vocab_def distinct_snd_consecutive)
qed

lemma snd_spec_vocab:
  "map snd (spec_vocab inc cs) = map int [0..<length (spec_vocab inc cs)]"
proof (cases inc)
  case True
  have "map int [0..<Suc (Suc n)] = 0 # 1 # map (\<lambda>j. 2 + int j) [0..<n]" for n
    by (induction n) simp_all
  then show ?thesis
    using True
    by (simp add: spec_vocab_def specials_def snd_consecutive length_consecutive del: upt_Suc)
next
  case False
  then show ?thesis
    by (simp add: spec_vocab_def snd_consecutive length_consecutive)
qed

lemma spec_vocab_empty: "spec_vocab inc cs = [] \<longleftrightarrow> \<not> inc \<and> cs = []"
  by (cases cs) (auto simp: spec_vocab_def specials_def chars_def)

lemma spec_vocab_char_id:
  assumes "map_of (spec_vocab inc cs) [c] = Some i"
  shows "(if inc then 2 else 0) \<le> i"
proof -
  have m: "([c], i) \<in> set (spec_vocab inc cs)"
    using assms by (rule map_of_SomeD)
  have "[c] \<noteq> PAD" "[c] \<noteq> UNK"
    by (simp_all add: PAD_def UNK_def lit_def)
  then have "([c], i) \<in> set (consecutive (if inc then 2 else 0) (chars cs))"
    using m by (auto simp: spec_vocab_def specials_def split: if_splits)
  then show ?thesis
    using consecutive_ge [of "[c]" i "if inc then 2 else 0" "chars cs"] by simp
qed

lemma fit_corpus_cases:
  "\<exists>cs. set cs = {c \<in> set corpus. mf \<le> spec_freq corpus c}
        \<and> sorted_wrt (spec_before corpus) cs \<and> distinct cs
        \<and> fit_corpus self corpus inc mf =
            (if cs = [] \<and> \<not> inc
             then (Some EmptyVocabulary, self)
             else (None, fitted_state self inc cs))"
proof -
  let ?flt = "filter (\<lambda>(ch, c). mf \<le> c) (Counter (chars corpus))"
  obtain cs where its: "sort_items ?flt = map (\<lambda>c. ([c], spec_freq corpus c)) cs"
    and cs: "set cs = {c \<in> set corpus. mf \<le> spec_freq corpus c}"
      "sorted_wrt (spec_before corpus) cs" "distinct cs"
    using sorted_items_shape [of mf corpus] by blast
  have "length ?flt = length cs"
    using arg_cong [OF its, of length] by (simp add: sort_items_def)
  then have empty: "?flt = [] \<longleftrightarrow> cs = []"
    by (metis length_0_conv)
  have keys_its: "map fst (sort_items ?flt) = chars cs"
    by (simp add: its) (simp add: chars_def comp_def)
  have len_its: "length (sort_items ?flt) = length cs"
    by (simp add: its)
  have fold: "fst (foldl assign (st0, idx) (sort_items ?flt)) = st0 @ consecutive idx (chars cs)"
    if "set (chars cs) \<inter> set (keys st0) = {}" for st0 idx
    using assign_fold [of "sort_items ?flt" st0 idx] that cs(3)
    by (simp add: keys_its distinct_chars)
  have disj: "set (chars cs) \<inter> set (keys (dict_set UNK 1 (dict_set PAD 0 []))) = {}"
    using PAD_UNK keys_chars [of PAD cs] keys_chars [of UNK cs] by (auto simp: keys_def)
  have st: "fst (foldl assign
              (if inc then (dict_set UNK 1 (dict_set PAD 0 []), 2) else ([], 0))
              (sort_items ?flt)) = spec_vocab inc cs"
    using fold [OF disj, of 2] fold [of "[]" 0] PAD_UNK
    by (simp add: spec_vocab_def specials_def keys_def)
  have inv: "invert (spec_vocab inc cs) = swapped (spec_vocab inc cs)"
    by (rule invert_distinct) (rule distinct_vals_spec_vocab)
  have ok: "\<not> inconsistent (spec_vocab inc cs) (swapped (spec_vocab inc cs))"
    using consistent_bij distinct_keys_spec_vocab [OF cs(3)] distinct_vals_spec_vocab by blast
  have ne: "swapped (spec_vocab inc cs) = [] \<longleftrightarrow> \<not> inc \<and> cs = []"
    by (simp add: swapped_def spec_vocab_empty)
  have "fit_corpus self corpus inc mf =
            (if cs = [] \<and> \<not> inc
             then (Some EmptyVocabulary, self)
             else (None, fitted_state self inc cs))"
  proof (cases inc)
    case True
    then show ?thesis
      using st inv ok ne spec_vocab_empty [of inc cs]
      by (simp add: fit_corpus_def Let_def fitted_state_def)
  next
    case False
    then show ?thesis
      using st inv ok ne spec_vocab_empty [of inc cs] empty
      by (simp add: fit_corpus_def Let_def fitted_state_def)
  qed
  then show ?thesis
    using cs by blast
qed

lemma fit_corpus_nothing:
  assumes "\<forall>c\<in>set corpus. spec_freq corpus c < mf"
  shows "fit_corpus self corpus inc mf =
            (if \<not> inc
             then (Some EmptyVocabulary, self)
             else (None, fitted_state self inc []))"
proof -
  obtain cs where cs: "set cs = {c \<in> set corpus. mf \<le> spec_freq corpus c}"
    and r: "fit_corpus self corpus inc mf =
            (if cs = [] \<and> \<not> inc
             then (Some EmptyVocabulary, self)
             else (None, fitted_state self inc cs))"
    using fit_corpus_cases [of corpus mf self inc] by blast
  have "{c \<in> set corpus. mf \<le> spec_freq corpus c} = {}"
    using assms by (auto simp: not_le [symmetric])
  then have "set cs = {}"
    using cs by simp
  then have "cs = []" by simp
  then show ?thesis using r by simp
qed

lemma fit_success:
  assumes "fit files self src inc mf = (None, tok)"
  shows "\<exists>corpus cs. corpus_of files src = Inr corpus
           \<and> set cs = {c \<in> set corpus. mf \<le> spec_freq corpus c}
           \<and> sorted_wrt (spec_before corpus) cs \<and> distinct cs
           \<and> (inc \<or> cs \<noteq> [])
           \<and> tok = fitted_state self inc cs"
proof -
  from assms obtain corpus where c: "corpus_of files src = Inr corpus"
    and f: "fit_corpus self corpus inc mf = (None, tok)"
    by (auto simp: fit_def split: if_splits sum.splits)
  obtain cs where cs: "set cs = {c \<in> set corpus. mf \<le> spec_freq corpus c}"
      "sorted_wrt (spec_before corpus) cs" "distinct cs"
    and r: "fit_corpus self corpus inc mf =
            (if cs = [] \<and> \<not> inc
             then (Some EmptyVocabulary, self)
             else (None, fitted_state self inc cs))"
    using fit_corpus_cases [of corpus mf self inc] by blast
  from f r have "tok = fitted_state self inc cs" "inc \<or> cs \<noteq> []"
    by (auto split: if_splits)
  then show ?thesis
    using c cs by blast
qed

lemma fitted_state_fields:
  "stoi (fitted_state self inc cs) = spec_vocab inc cs"
  "itos (fitted_state self inc cs) = swapped (spec_vocab inc cs)"
  "pad_id (fitted_state self inc cs) = (if inc then PInt 0 else PNone)"
  "unk_id (fitted_state self inc cs) = (if inc then PInt 1 else PNone)"
  "vocab_size (fitted_state self inc cs) = int (length (spec_vocab inc cs))"
  by (simp_all add: fitted_state_def)

lemma fitted_state_is_fitted: "is_fitted (fitted_state self inc cs) \<longleftrightarrow> inc \<or> cs \<noteq> []"
  by (auto simp: is_fitted_def fitted_state_def swapped_def spec_vocab_empty)

lemma fitted_state_any_self: "fitted_state self inc cs = fitted_state self' inc cs"
  by (cases self, cases self') (simp add: fitted_state_def)

text \<open>The two example tokenizers are what \<open>fit\<close> builds from the text \<open>ab\<close>.\<close>

lemma fit_ab: "fit no_files init (SrcStr (lit ''ab'')) True 1 = (None, tok_ab)"
  by code_simp

lemma fit_plain: "fit no_files init (SrcStr (lit ''ab'')) False 1 = (None, tok_plain)"
  by code_simp

section \<open>What \<open>load\<close> builds\<close>

lemma validate_not_dict:
  "validate PNone = Inl TypeError" "validate (PBool b) = Inl TypeError"
  "validate (PInt n) = Inl TypeError" "validate (PFloat f) = Inl TypeError"
  "\<exists>e. validate (PStr s) = Inl e" "\<exists>e. validate (PList xs) = Inl e"
  by (simp_all add: validate_def py_contains_def py_getitem_def)

lemma validate_dict:
  "validate (PDict d) =
     (case map_of d (lit ''stoi'') of
        Some (PDict sd) \<Rightarrow>
          if lit ''pad_id'' \<in> set (keys d) \<and> lit ''unk_id'' \<in> set (keys d) then Inr ()
          else Inl MissingIds
      | _ \<Rightarrow> Inl BadStoi)"
proof (cases "map_of d (lit ''stoi'')")
  case None
  then have "lit ''stoi'' \<notin> set (keys d)"
    by (simp add: keys_def map_of_eq_None_iff)
  then show ?thesis
    using None by (simp add: validate_def py_contains_def)
next
  case (Some v)
  then have "lit ''stoi'' \<in> set (keys d)"
    using map_of_eq_None_iff [of d "lit ''stoi''"] by (simp add: keys_def)
  then show ?thesis
    using Some by (cases v) (simp_all add: validate_def py_contains_def py_getitem_def getitem_def)
qed

lemma validate_ok:
  assumes "validate data = Inr u"
  shows "\<exists>d sd pad unk. data = PDict d \<and> map_of d (lit ''stoi'') = Some (PDict sd)
           \<and> map_of d (lit ''pad_id'') = Some pad \<and> map_of d (lit ''unk_id'') = Some unk"
proof (cases data)
  case (PDict d)
  have mem: "k \<in> set (keys d) \<Longrightarrow> \<exists>v. map_of d k = Some v" for k
    by (cases "map_of d k") (auto simp: keys_def map_of_eq_None_iff)
  from assms PDict obtain sd where sd: "map_of d (lit ''stoi'') = Some (PDict sd)"
    by (auto simp: validate_dict split: option.splits pyobj.splits)
  from assms PDict sd have k: "lit ''pad_id'' \<in> set (keys d)" "lit ''unk_id'' \<in> set (keys d)"
    by (auto simp: validate_dict split: if_splits)
  obtain pad where pad: "map_of d (lit ''pad_id'') = Some pad"
    using mem [OF k(1)] ..
  obtain unk where unk: "map_of d (lit ''unk_id'') = Some unk"
    using mem [OF k(2)] ..
  show ?thesis
    by (intro exI conjI) (rule PDict, rule sd, rule pad, rule unk)
next
  case PNone
  then show ?thesis using assms validate_not_dict(1) by simp
next
  case (PBool b)
  then show ?thesis using assms validate_not_dict(2) by simp
next
  case (PInt n)
  then show ?thesis using assms validate_not_dict(3) by simp
next
  case (PFloat f)
  then show ?thesis using assms validate_not_dict(4) by simp
next
  case (PStr s)
  then show ?thesis using assms validate_not_dict(5) [of s] by auto
next
  case (PList xs)
  then show ?thesis using assms validate_not_dict(6) [of xs] by auto
qed

lemma convert_keys:
  assumes "convert atoi data = Inr st"
  shows "distinct (keys st)"
proof -
  from assms have "\<exists>sis. st = dict_of sis"
    unfolding convert_def by (simp split: sum.splits) (rule exI, erule sym)
  then obtain sis where "st = dict_of sis" ..
  then show ?thesis
    by (simp add: distinct_dict_of)
qed

lemma load_data_result:
  assumes "validate data = Inr u" and "convert atoi data = Inr st"
  shows "\<exists>pad unk. py_getitem data (lit ''pad_id'') = Inr pad
           \<and> py_getitem data (lit ''unk_id'') = Inr unk
           \<and> load_data atoi self data =
               ((if inconsistent st (invert st)
                 then Some InconsistentState
                 else None), loaded_state self st pad unk)"
proof -
  obtain d sd pad unk where "data = PDict d \<and> map_of d (lit ''stoi'') = Some (PDict sd)
      \<and> map_of d (lit ''pad_id'') = Some pad \<and> map_of d (lit ''unk_id'') = Some unk"
    using validate_ok [OF assms(1)] by (elim exE)
  then have "data = PDict d" "map_of d (lit ''pad_id'') = Some pad"
    "map_of d (lit ''unk_id'') = Some unk"
    by simp_all
  then have "py_getitem data (lit ''pad_id'') = Inr pad" "py_getitem data (lit ''unk_id'') = Inr unk"
    by (simp_all add: py_getitem_def getitem_def)
  then show ?thesis
    using assms by (simp add: load_data_def loaded_state_def Let_def)
qed

lemma load_data_success:
  assumes "load_data atoi self data = (None, tok)"
  shows "\<exists>st pad unk. distinct (keys st) \<and> \<not> inconsistent st (invert st)
           \<and> tok = loaded_state self st pad unk"
proof -
  from assms obtain u where u: "validate data = Inr u"
    by (cases "validate data") (auto simp: load_data_def)
  from assms u obtain st where st: "convert atoi data = Inr st"
    by (cases "convert atoi data") (auto simp: load_data_def)
  obtain pad unk where "py_getitem data (lit ''pad_id'') = Inr pad
           \<and> py_getitem data (lit ''unk_id'') = Inr unk
           \<and> load_data atoi self data =
               ((if inconsistent st (invert st)
                 then Some InconsistentState
                 else None), loaded_state self st pad unk)"
    using load_data_result [OF u st, of self] by (elim exE)
  with assms have "\<not> inconsistent st (invert st)" "tok = loaded_state self st pad unk"
    by (auto split: if_splits)
  then show ?thesis
    using convert_keys [OF st] by blast
qed

lemma consistent_distinct_vals:
  assumes "distinct (map fst st)" and "\<not> inconsistent st (invert st)"
  shows "distinct (map snd st)"
proof -
  have look: "map_of (invert st) i = Some s" if "(s, i) \<in> set st" for s i
  proof -
    have "map_of st s = Some i"
      using that assms(1) by simp
    moreover have "s \<in> set (keys st)"
      using that by (force simp: keys_def)
    ultimately show ?thesis
      using assms(2) by (auto simp: inconsistent_def list_ex_iff)
  qed
  have "inj_on snd (set st)"
  proof (rule inj_onI)
    fix x y assume xy: "x \<in> set st" "y \<in> set st" "snd x = snd y"
    have "map_of (invert st) (snd x) = Some (fst x)"
      using look [of "fst x" "snd x"] xy(1) by simp
    moreover have "map_of (invert st) (snd x) = Some (fst y)"
      using look [of "fst y" "snd y"] xy(2,3) by simp
    ultimately show "x = y"
      using xy(3) by (simp add: prod_eq_iff)
  qed
  moreover have "distinct st"
    using assms(1) by (simp add: distinct_map)
  ultimately show ?thesis
    by (simp add: distinct_map)
qed

lemma load_data_failure:
  assumes "load_data atoi self data = (Some e, self')"
  shows "(self' = self \<and> (validate data = Inl e \<or> convert atoi data = Inl e))
       \<or> (e = InconsistentState
          \<and> (\<exists>st pad unk. validate data = Inr () \<and> convert atoi data = Inr st
                \<and> py_getitem data (lit ''pad_id'') = Inr pad
                \<and> py_getitem data (lit ''unk_id'') = Inr unk
                \<and> inconsistent st (invert st)
                \<and> self' = loaded_state self st pad unk))"
proof (cases "validate data")
  case (Inl e')
  then show ?thesis
    using assms by (simp add: load_data_def)
next
  case v: (Inr u)
  show ?thesis
  proof (cases "convert atoi data")
    case (Inl e')
    then show ?thesis
      using assms v by (simp add: load_data_def)
  next
    case (Inr st)
    obtain pad unk where r: "py_getitem data (lit ''pad_id'') = Inr pad
           \<and> py_getitem data (lit ''unk_id'') = Inr unk
           \<and> load_data atoi self data =
               ((if inconsistent st (invert st) then Some InconsistentState else None),
                loaded_state self st pad unk)"
      using load_data_result [OF v Inr, of self] by (elim exE)
    with assms have "inconsistent st (invert st)" "e = InconsistentState"
      "self' = loaded_state self st pad unk"
      by (auto split: if_splits)
    then show ?thesis
      using r v Inr by auto
  qed
qed

lemma load_module_globals:
  "load module_globals atoi self fs path =
     (Some (if fs path = None then FileNotFoundError else NameError ''json''), self)"
  by (simp add: load_def module_globals_def split: option.splits)

lemma load_unchanged_or_loaded:
  assumes "load g atoi self fs path = (Some e, self')"
  shows "self' = self
       \<or> (e = InconsistentState \<and> ''json'' \<in> set g
          \<and> (\<exists>data st pad unk. fs path = Some (Json data)
                \<and> inconsistent st (invert st) \<and> self' = loaded_state self st pad unk))"
proof (cases "fs path")
  case None
  then show ?thesis using assms by (simp add: load_def)
next
  case (Some c)
  show ?thesis
  proof (cases "''json'' \<in> set g")
    case False
    then show ?thesis using assms Some by (simp add: load_def)
  next
    case j: True
    show ?thesis
    proof (cases c)
      case NotJson
      then show ?thesis using assms Some j by (simp add: load_def)
    next
      case NotUtf8
      then show ?thesis using assms Some j by (simp add: load_def)
    next
      case (Json data)
      then have "load_data atoi self data = (Some e, self')"
        using assms Some j by (simp add: load_def)
      from load_data_failure [OF this] show ?thesis
        using Some Json j by auto
    qed
  qed
qed

lemma lit_keys:
  "lit ''version'' \<noteq> lit ''stoi''" "lit ''version'' \<noteq> lit ''pad_id''"
  "lit ''version'' \<noteq> lit ''unk_id''" "lit ''stoi'' \<noteq> lit ''pad_id''"
  "lit ''stoi'' \<noteq> lit ''unk_id''" "lit ''pad_id'' \<noteq> lit ''unk_id''"
  by (simp_all add: lit_def)

lemma payload_getitem:
  "py_getitem (payload tok) (lit ''stoi'') = Inr (PDict (map (\<lambda>(s, i). (s, PInt i)) (stoi tok)))"
  "py_getitem (payload tok) (lit ''pad_id'') = Inr (pad_id tok)"
  "py_getitem (payload tok) (lit ''unk_id'') = Inr (unk_id tok)"
  using lit_keys by (simp_all add: py_getitem_def getitem_def payload_def)

lemma validate_payload: "validate (payload tok) = Inr ()"
  using lit_keys by (simp add: payload_def validate_dict keys_def)

lemma convert_payload:
  assumes "distinct (keys (stoi tok))"
  shows "convert atoi (payload tok) = Inr (stoi tok)"
proof -
  have "traverse (\<lambda>(s, i). case py_int atoi i of Inl e \<Rightarrow> Inl e | Inr n \<Rightarrow> Inr (s, n))
          (map (\<lambda>(s, i). (s, PInt i)) (stoi tok)) = Inr (map (\<lambda>x. x) (stoi tok))"
    by (rule traverse_all) (simp add: py_int_def case_prod_unfold)
  then show ?thesis
    using assms by (simp add: convert_def payload_getitem items_def dict_of_distinct)
qed

lemma load_payload:
  assumes "distinct (map fst (stoi tok))" and "distinct (map snd (stoi tok))"
  shows "load_data atoi self (payload tok) =
           (None, loaded_state self (stoi tok) (pad_id tok) (unk_id tok))"
proof -
  have c: "convert atoi (payload tok) = Inr (stoi tok)"
    using assms(1) by (simp add: convert_payload keys_def)
  have "\<not> inconsistent (stoi tok) (invert (stoi tok))"
    using consistent_bij [OF assms] invert_distinct [OF assms(2)] by simp
  then show ?thesis
    using load_data_result [OF validate_payload c, of self]
    by (auto simp: payload_getitem)
qed

lemma loaded_fitted:
  "loaded_state self' (stoi (fitted_state self inc cs)) (pad_id (fitted_state self inc cs))
      (unk_id (fitted_state self inc cs)) = fitted_state self' inc cs"
  by (cases self, cases self')
     (simp add: loaded_state_def fitted_state_def invert_distinct distinct_vals_spec_vocab)

section \<open>What \<open>encode\<close> and \<open>decode\<close> return\<close>

lemma lookup_char_cases:
  "lookup_char tok [c] =
     (case map_of (stoi tok) [c] of None \<Rightarrow> Inl (KeyError (PStr [c])) | Some i \<Rightarrow> Inr (PInt i))"
  by (simp add: lookup_char_def getitem_def split: option.splits)

lemma traverse_lookup_Inr:
  "traverse (lookup_char tok) (chars tx) = Inr out \<Longrightarrow> out = map (per_char tok) tx"
proof (induction tx arbitrary: out)
  case Nil
  then show ?case by (simp add: chars_def)
next
  case (Cons c tx)
  from Cons.prems obtain y ys where y: "lookup_char tok [c] = Inr y"
    and ys: "traverse (lookup_char tok) (chars tx) = Inr ys" and out: "out = y # ys"
    by (auto simp: chars_def split: sum.splits)
  have "y = per_char tok c"
    using y by (auto simp: lookup_char_cases per_char_def split: option.splits)
  then show ?case
    using Cons.IH [OF ys] out by simp
qed

lemma traverse_lookup_all:
  assumes "\<forall>c\<in>set text. [c] \<in> set (keys (stoi tok))"
  shows "traverse (lookup_char tok) (chars text) = Inr (map (per_char tok) text)"
  unfolding chars_def
proof (rule traverse_all)
  fix c assume "c \<in> set text"
  then have "[c] \<in> set (keys (stoi tok))"
    using assms by simp
  then obtain i where "map_of (stoi tok) [c] = Some i"
    by (cases "map_of (stoi tok) [c]") (auto simp: keys_def map_of_eq_None_iff)
  then show "lookup_char tok [c] = Inr (per_char tok c)"
    by (simp add: lookup_char_cases per_char_def)
qed

lemma traverse_lookup_fail:
  assumes "text = pre @ c # post" and "\<forall>x\<in>set pre. [x] \<in> set (keys (stoi tok))"
    and "[c] \<notin> set (keys (stoi tok))"
  shows "traverse (lookup_char tok) (chars text) = Inl (KeyError (PStr [c]))"
proof -
  have "chars text = chars pre @ [c] # chars post"
    using assms(1) by (simp add: chars_def)
  moreover have "\<exists>y. lookup_char tok ch = Inr y" if "ch \<in> set (chars pre)" for ch
  proof -
    from that obtain x where "x \<in> set pre" "ch = [x]"
      by (auto simp: chars_def)
    then have "map_of (stoi tok) ch \<noteq> None"
      using assms(2) by (simp add: keys_def map_of_eq_None_iff)
    then show ?thesis
      using \<open>ch = [x]\<close> by (auto simp: lookup_char_cases)
  qed
  moreover have "map_of (stoi tok) [c] = None"
    using assms(3) by (simp add: keys_def map_of_eq_None_iff)
  then have "lookup_char tok [c] = Inl (KeyError (PStr [c]))"
    by (simp add: lookup_char_cases)
  ultimately show ?thesis
    by (simp add: traverse_first_failure)
qed

lemma encode_facts:
  assumes "is_fitted tok"
  shows "(\<forall>out. encode tok text strict = Inr out \<longrightarrow>
            out = map (per_char tok) text \<and> length out = length text)
       \<and> (unk_id tok \<noteq> PNone \<longrightarrow> encode tok text False = Inr (map (per_char tok) text))
       \<and> ((\<forall>c\<in>set text. [c] \<in> set (keys (stoi tok))) \<longrightarrow>
            encode tok text strict = Inr (map (per_char tok) text))
       \<and> (unk_id tok = PNone \<longrightarrow> encode tok text False = encode tok text True)
       \<and> (\<forall>pre c post. text = pre @ c # post
              \<and> (\<forall>x\<in>set pre. [x] \<in> set (keys (stoi tok)))
              \<and> [c] \<notin> set (keys (stoi tok)) \<longrightarrow>
            encode tok text True = Inl (KeyError (PStr [c])))"
proof (intro conjI allI impI)
  fix out
  assume e: "encode tok text strict = Inr out"
  show "out = map (per_char tok) text"
  proof (cases "strict \<or> unk_id tok = PNone")
    case True
    then have "traverse (lookup_char tok) (chars text) = Inr out"
      using e assms by (auto simp: encode_def split: if_splits)
    then show ?thesis by (rule traverse_lookup_Inr)
  next
    case False
    then show ?thesis
      using e assms by (auto simp: encode_def chars_def per_char_def comp_def)
  qed
  then show "length out = length text" by simp
next
  assume "unk_id tok \<noteq> PNone"
  then show "encode tok text False = Inr (map (per_char tok) text)"
    using assms by (simp add: encode_def chars_def per_char_def comp_def)
next
  assume a: "\<forall>c\<in>set text. [c] \<in> set (keys (stoi tok))"
  show "encode tok text strict = Inr (map (per_char tok) text)"
  proof (cases "strict \<or> unk_id tok = PNone")
    case True
    then show ?thesis
      using assms traverse_lookup_all [OF a] by (auto simp: encode_def)
  next
    case False
    then show ?thesis
      using assms by (simp add: encode_def chars_def per_char_def comp_def)
  qed
next
  assume "unk_id tok = PNone"
  then show "encode tok text False = encode tok text True"
    by (simp add: encode_def)
next
  fix pre c post
  assume "text = pre @ c # post \<and> (\<forall>x\<in>set pre. [x] \<in> set (keys (stoi tok)))
              \<and> [c] \<notin> set (keys (stoi tok))"
  then show "encode tok text True = Inl (KeyError (PStr [c]))"
    using assms traverse_lookup_fail [of "text" pre c post tok] by (simp add: encode_def)
qed

lemma per_char_fitted:
  "\<exists>i. per_char (fitted_state self True cs) c = PInt i \<and> 1 \<le> i"
proof (cases "map_of (spec_vocab True cs) [c]")
  case None
  then show ?thesis
    by (simp add: per_char_def fitted_state_fields)
next
  case (Some i)
  then have "2 \<le> i"
    using spec_vocab_char_id [of True cs c i] by simp
  then show ?thesis
    using Some by (simp add: per_char_def fitted_state_fields)
qed

lemma int_eq_PInt: "int_eq i (PInt n) = (i = n)" "int_eq i PNone = False"
  by (simp_all add: int_eq_def)

lemma specials_in_itos:
  "0 \<in> set (keys (itos (fitted_state self True cs)))"
  "1 \<in> set (keys (itos (fitted_state self True cs)))"
  by (simp_all add: fitted_state_fields spec_vocab_def specials_def swapped_def keys_def)

lemma decode_not_skipped:
  "decode tok ids skip =
     (if \<not> is_fitted tok then Inl NotFitted
      else (case traverse (getitem PInt (itos tok)) (filter (\<lambda>i. \<not> skipped tok skip i) ids) of
              Inl e \<Rightarrow> Inl e
            | Inr parts \<Rightarrow> Inr (concat parts)))"
proof (cases "skip \<and> pad_id tok \<noteq> PNone \<and> unk_id tok \<noteq> PNone")
  case True
  then have "filter (\<lambda>i. \<not> skipped tok skip i) ids
      = filter (\<lambda>i. \<not> int_eq i (pad_id tok) \<and> \<not> int_eq i (unk_id tok)) ids"
    by (simp add: skipped_def)
  then show ?thesis
    using True by (simp add: decode_def)
next
  case False
  then have "filter (\<lambda>i. \<not> skipped tok skip i) ids = ids"
    by (auto simp: skipped_def)
  then show ?thesis
    using False by (auto simp: decode_def)
qed



lemma fit_skipped_present:
  assumes "fit files self src inc mf = (None, tok)" and "skipped tok skip i"
  shows "i \<in> set (keys (itos tok))"
proof -
  obtain cs where tok: "tok = fitted_state self inc cs"
    using fit_success [OF assms(1)] by blast
  from assms(2) have inc: inc
    by (cases inc) (simp_all add: skipped_def tok fitted_state_fields)
  with assms(2) have "i = 0 \<or> i = 1"
    by (simp add: skipped_def tok fitted_state_fields int_eq_PInt)
  then show ?thesis
    using specials_in_itos [of self cs] inc by (auto simp: tok)
qed


lemma decode_first_missing:
  assumes f: "is_fitted tok"
    and missing: "\<exists>i\<in>set ids. i \<notin> set (keys (itos tok)) \<and> \<not> skipped tok skip i"
  shows "\<exists>pre i post. ids = pre @ i # post
           \<and> (\<forall>j\<in>set pre. j \<in> set (keys (itos tok)) \<or> skipped tok skip j)
           \<and> i \<notin> set (keys (itos tok)) \<and> \<not> skipped tok skip i
           \<and> decode tok ids skip = Inl (KeyError (PInt i))"
proof -
  obtain pre i post where split: "ids = pre @ i # post"
    and absent: "i \<notin> set (keys (itos tok))" and kept: "\<not> skipped tok skip i"
    and before: "\<forall>j\<in>set pre. \<not> (j \<notin> set (keys (itos tok)) \<and> \<not> skipped tok skip j)"
    using split_list_first_prop [OF missing] by blast
  let ?keep = "\<lambda>i. \<not> skipped tok skip i"
  have flt: "filter ?keep ids = filter ?keep pre @ i # filter ?keep post"
    using split kept by simp
  have "\<exists>y. getitem PInt (itos tok) j = Inr y" if h: "j \<in> set (filter ?keep pre)" for j
  proof -
    have "j \<in> set (keys (itos tok))"
      using h before by auto
    then have "map_of (itos tok) j \<noteq> None"
      by (simp add: keys_def map_of_eq_None_iff)
    then show ?thesis
      by (auto simp: getitem_def)
  qed
  moreover have "getitem PInt (itos tok) i = Inl (KeyError (PInt i))"
  proof -
    have "map_of (itos tok) i = None"
      using absent by (simp add: keys_def map_of_eq_None_iff)
    then show ?thesis by (simp add: getitem_def)
  qed
  ultimately have "traverse (getitem PInt (itos tok)) (filter ?keep ids) = Inl (KeyError (PInt i))"
    unfolding flt by (rule traverse_first_failure)
  then have "decode tok ids skip = Inl (KeyError (PInt i))"
    using f by (simp add: decode_not_skipped)
  moreover have "\<forall>j\<in>set pre. j \<in> set (keys (itos tok)) \<or> skipped tok skip j"
    using before by blast
  ultimately show ?thesis
    using split absent kept by (intro exI [of _ pre] exI [of _ i] exI [of _ post] conjI)
qed


lemma load_absent: "load_data no_atoi init absent_doc = (None, tok_absent)"
  by code_simp

section \<open>Claims on \<open>fit\<close>\<close>



text \<open>
  C9. When no character of the corpus reaches \<open>min_freq\<close> (the empty corpus is one such
  case), \<open>fit\<close> without special tokens raises the empty-vocabulary error and leaves the
  instance as it was; with special tokens it succeeds, the vocabulary holds exactly the two
  special tokens, \<open>vocab_size\<close> is 2 and the instance is fitted.
\<close>

theorem fit_when_nothing_survives:
  assumes "\<not> is_fitted self" and "corpus_of files src = Inr corpus"
    and "\<forall>c\<in>set corpus. spec_freq corpus c < mf"
  shows "fit files self src False mf =
           (Some EmptyVocabulary, self)
       \<and> (\<exists>tok. fit files self src True mf = (None, tok)
             \<and> stoi tok = [(PAD, 0), (UNK, 1)] \<and> itos tok = [(0, PAD), (1, UNK)]
             \<and> pad_id tok = PInt 0 \<and> unk_id tok = PInt 1
             \<and> vocab_size tok = 2 \<and> is_fitted tok \<and> get_vocab_size tok = Inr 2)"
proof -
  have fit_eq: "fit files self src inc mf = fit_corpus self corpus inc mf" for inc
    using assms(1,2) by (simp add: fit_def)
  have "fit files self src False mf =
           (Some EmptyVocabulary, self)"
    using fit_corpus_nothing [OF assms(3), of self False] by (simp add: fit_eq)
  moreover have "fit files self src True mf = (None, fitted_state self True [])"
    using fit_corpus_nothing [OF assms(3), of self True] by (simp add: fit_eq)
  moreover have "stoi (fitted_state self True []) = [(PAD, 0), (UNK, 1)]"
    "itos (fitted_state self True []) = [(0, PAD), (1, UNK)]"
    "pad_id (fitted_state self True []) = PInt 0" "unk_id (fitted_state self True []) = PInt 1"
    "vocab_size (fitted_state self True []) = 2"
    by (simp_all add: fitted_state_def spec_vocab_def specials_def swapped_def chars_def)
  moreover have "is_fitted (fitted_state self True [])"
    by (simp add: fitted_state_is_fitted)
  ultimately show ?thesis
    by (simp add: get_vocab_size_def)
qed

theorem fit_when_nothing_survives_witness:
  "fit no_files init (SrcStr []) False 1 =
           (Some EmptyVocabulary, init)
       \<and> (\<exists>tok. fit no_files init (SrcStr []) True 1 = (None, tok)
             \<and> stoi tok = [(PAD, 0), (UNK, 1)] \<and> itos tok = [(0, PAD), (1, UNK)]
             \<and> pad_id tok = PInt 0 \<and> unk_id tok = PInt 1
             \<and> vocab_size tok = 2 \<and> is_fitted tok \<and> get_vocab_size tok = Inr 2)
       \<and> fit no_files init (SrcStr (lit ''aab'')) False 3 =
           (Some EmptyVocabulary, init)"
proof -
  have a: "\<not> is_fitted init"
    by (simp add: is_fitted_def init_def)
  have b: "corpus_of no_files (SrcStr []) = Inr []"
    by (simp add: corpus_of_def no_files_def)
  have c: "\<forall>c\<in>set ([]::pystr). spec_freq [] c < 1"
    by simp
  have b': "corpus_of no_files (SrcStr (lit ''aab'')) = Inr (lit ''aab'')"
    by (simp add: corpus_of_def no_files_def)
  have c': "\<forall>c\<in>set (lit ''aab''). spec_freq (lit ''aab'') c < 3"
    by (simp add: lit_def spec_freq_def)
  show ?thesis
    using fit_when_nothing_survives [OF a b c] fit_when_nothing_survives [OF a b' c']
    by simp
qed

section \<open>Claims on \<open>load\<close> and on the payload\<close>

text \<open>
  C5. After a successful \<open>fit\<close>, and after lines 138 to 154 of \<open>load\<close> have run without
  an exception, \<open>itos\<close> and \<open>stoi\<close> are inverse to each other: \<open>itos[stoi[c]] = c\<close> for
  every key \<open>c\<close> of \<open>stoi\<close> and \<open>stoi[itos[i]] = i\<close> for every key \<open>i\<close> of \<open>itos\<close>; and
  \<open>vocab_size\<close> is the number of entries of each.
\<close>

theorem mappings_are_inverses:
  assumes "fit files self src inc mf = (None, tok) \<or> load_data atoi self data = (None, tok)"
  shows "(\<forall>c i. map_of (stoi tok) c = Some i \<longrightarrow> map_of (itos tok) i = Some c)
       \<and> (\<forall>i c. map_of (itos tok) i = Some c \<longrightarrow> map_of (stoi tok) c = Some i)
       \<and> vocab_size tok = int (length (stoi tok))
       \<and> length (itos tok) = length (stoi tok)
       \<and> distinct (keys (stoi tok)) \<and> distinct (keys (itos tok))"
proof -
  have "distinct (map fst (stoi tok)) \<and> distinct (map snd (stoi tok))
          \<and> itos tok = swapped (stoi tok) \<and> vocab_size tok = int (length (stoi tok))"
    using assms
  proof
    assume "fit files self src inc mf = (None, tok)"
    then obtain cs where "distinct cs" "tok = fitted_state self inc cs"
      using fit_success by blast
    then show ?thesis
      using distinct_keys_spec_vocab [of cs inc] distinct_vals_spec_vocab [of inc cs]
      by (simp add: fitted_state_def)
  next
    assume "load_data atoi self data = (None, tok)"
    then obtain st pad unk where st: "distinct (keys st)" "\<not> inconsistent st (invert st)"
      "tok = loaded_state self st pad unk"
      using load_data_success by blast
    then have "distinct (map snd st)"
      using consistent_distinct_vals [of st] by (simp add: keys_def)
    then show ?thesis
      using st by (simp add: loaded_state_def invert_distinct keys_def)
  qed
  then have d: "distinct (map fst (stoi tok))" "distinct (map snd (stoi tok))"
    and eqs: "itos tok = swapped (stoi tok)" "vocab_size tok = int (length (stoi tok))"
    by simp_all
  show ?thesis
    using inverse_pair [OF d] eqs(2) unfolding eqs(1)
    by (elim conjE) (intro conjI; assumption)
qed

theorem mappings_are_inverses_witness:
  "fit no_files init (SrcStr (lit ''ab'')) True 1 = (None, tok_ab)
   \<and> load_data no_atoi init (payload tok_ab) = (None, tok_ab)
   \<and> map_of (stoi tok_ab) (lit ''b'') = Some 3
   \<and> map_of (itos tok_ab) 3 = Some (lit ''b'')
   \<and> map_of (stoi tok_ab) PAD = Some 0
   \<and> map_of (itos tok_ab) 0 = Some PAD
   \<and> vocab_size tok_ab = 4 \<and> length (stoi tok_ab) = 4 \<and> length (itos tok_ab) = 4
   \<and> distinct (keys (stoi tok_ab)) \<and> distinct (keys (itos tok_ab))"
proof -
  have h: "fit no_files init (SrcStr (lit ''ab'')) True 1 = (None, tok_ab)"
    by code_simp
  have h': "load_data no_atoi init (payload tok_ab) = (None, tok_ab)"
    by code_simp
  have b: "map_of (stoi tok_ab) (lit ''b'') = Some 3" "map_of (stoi tok_ab) PAD = Some 0"
    by code_simp+
  have n: "length (stoi tok_ab) = 4"
    by (simp add: tok_ab_def)
  note fromfit = mappings_are_inverses [of no_files init "SrcStr (lit ''ab'')" True 1 tok_ab no_atoi bad_doc,
      OF disjI1 [OF h]]
  note fromload = mappings_are_inverses [of no_files init "SrcStr (lit ''ab'')" True 1 tok_ab no_atoi "payload tok_ab",
      OF disjI2 [OF h']]
  from fromfit have inv: "map_of (stoi tok_ab) c = Some i \<Longrightarrow> map_of (itos tok_ab) i = Some c" for c i
    by (elim conjE allE impE)
  have "map_of (itos tok_ab) 3 = Some (lit ''b'')" "map_of (itos tok_ab) 0 = Some PAD"
    by (rule inv, rule b)+
  moreover from fromload n have "vocab_size tok_ab = 4" "length (itos tok_ab) = 4"
    "distinct (keys (stoi tok_ab))" "distinct (keys (itos tok_ab))"
    by simp_all
  ultimately show ?thesis
    using h h' b n by simp
qed




text \<open>
  C2, as amended. For a tokenizer that \<open>fit\<close> has built, the \<open>stoi\<close> of the payload that
  \<open>save\<close> serialises has distinct keys: the two marker strings \<open><PAD>\<close> and \<open><UNK>\<close>
  first, exactly when the special tokens were requested, then one-character strings. Its
  values are the integers 0, 1, ..., n - 1 in this order, so unique and not negative.
\<close>

theorem payload_keys_and_values:
  assumes "fit files self src inc mf = (None, tok)"
  shows "\<exists>kvs cs. payload tok =
           PDict [(lit ''version'', PStr (lit ''char-tokenizer.v1'')),
                  (lit ''stoi'', PDict kvs),
                  (lit ''pad_id'', pad_id tok),
                  (lit ''unk_id'', unk_id tok)]
         \<and> map fst kvs = (if inc then [PAD, UNK] else []) @ chars cs
         \<and> distinct (map fst kvs)
         \<and> map snd kvs = map (\<lambda>j. PInt (int j)) [0..<length kvs]"
proof -
  obtain cs where cs: "distinct cs" and tok: "tok = fitted_state self inc cs"
    using fit_success [OF assms] by blast
  let ?kvs = "map (\<lambda>(s, i). (s, PInt i)) (spec_vocab inc cs)"
  have fst: "map fst ?kvs = map fst (spec_vocab inc cs)"
    by (simp add: comp_def case_prod_unfold)
  have "map snd ?kvs = map PInt (map snd (spec_vocab inc cs))"
    by (simp add: comp_def case_prod_unfold)
  then have snd: "map snd ?kvs = map (\<lambda>j. PInt (int j)) [0..<length ?kvs]"
    by (simp add: snd_spec_vocab comp_def)
  have "payload tok =
           PDict [(lit ''version'', PStr (lit ''char-tokenizer.v1'')),
                  (lit ''stoi'', PDict ?kvs),
                  (lit ''pad_id'', pad_id tok),
                  (lit ''unk_id'', unk_id tok)]"
    by (simp add: payload_def tok fitted_state_def)
  moreover have "map fst ?kvs = (if inc then [PAD, UNK] else []) @ chars cs"
    unfolding fst by (rule keys_spec_vocab)
  moreover have "distinct (map fst ?kvs)"
    unfolding fst by (rule distinct_keys_spec_vocab [OF cs])
  ultimately show ?thesis
    using snd by (intro exI [of _ ?kvs] exI [of _ cs] conjI)
qed

theorem payload_keys_and_values_witness:
  "fit no_files init (SrcStr (lit ''ab'')) True 1 = (None, tok_ab)
   \<and> (\<exists>kvs cs. payload tok_ab =
           PDict [(lit ''version'', PStr (lit ''char-tokenizer.v1'')),
                  (lit ''stoi'', PDict kvs),
                  (lit ''pad_id'', pad_id tok_ab),
                  (lit ''unk_id'', unk_id tok_ab)]
         \<and> map fst kvs = [PAD, UNK] @ chars cs
         \<and> distinct (map fst kvs)
         \<and> map snd kvs = map (\<lambda>j. PInt (int j)) [0..<length kvs])"
proof -
  have h: "fit no_files init (SrcStr (lit ''ab'')) True 1 = (None, tok_ab)"
    by code_simp
  show ?thesis
    using h payload_keys_and_values [OF h] by simp
qed

text \<open>
  The claim as stated fails: with the special tokens the payload has the keys \<open><PAD>\<close> and
  \<open><UNK>\<close>, strings of five characters.
\<close>

theorem payload_keys_counterexample:
  "fit no_files init (SrcStr (lit ''ab'')) True 1 = (None, tok_ab)
   \<and> payload tok_ab =
       PDict [(lit ''version'', PStr (lit ''char-tokenizer.v1'')),
              (lit ''stoi'', PDict [(lit ''<PAD>'', PInt 0), (lit ''<UNK>'', PInt 1),
                                    (lit ''a'', PInt 2), (lit ''b'', PInt 3)]),
              (lit ''pad_id'', PInt 0),
              (lit ''unk_id'', PInt 1)]
   \<and> length (lit ''<PAD>'') = 5 \<and> length (lit ''<UNK>'') = 5"
  by code_simp

section \<open>Claims on \<open>encode\<close> and \<open>decode\<close>\<close>

text \<open>
  C7. On a fitted tokenizer, whatever \<open>encode\<close> returns has one id per character of the
  text, in order: the id of the character in \<open>stoi\<close>, or the unknown id where it has none.
  With an unknown id configured the non-strict mode always returns, and every mode returns
  on a text whose characters are all in the vocabulary. With no unknown id configured the
  non-strict mode is the strict mode; the strict mode fails at the first character that is
  not in the vocabulary, with the \<open>KeyError\<close> of that character.
\<close>

theorem encode_one_id_per_character:
  assumes "is_fitted tok"
  shows "(\<forall>out. encode tok text strict = Inr out \<longrightarrow>
            out = map (per_char tok) text \<and> length out = length text)
       \<and> (unk_id tok \<noteq> PNone \<longrightarrow> encode tok text False = Inr (map (per_char tok) text))
       \<and> ((\<forall>c\<in>set text. [c] \<in> set (keys (stoi tok))) \<longrightarrow>
            encode tok text strict = Inr (map (per_char tok) text))
       \<and> (unk_id tok = PNone \<longrightarrow> encode tok text False = encode tok text True)
       \<and> (\<forall>pre c post. text = pre @ c # post
              \<and> (\<forall>x\<in>set pre. [x] \<in> set (keys (stoi tok)))
              \<and> [c] \<notin> set (keys (stoi tok)) \<longrightarrow>
            encode tok text True = Inl (KeyError (PStr [c])))"
  using assms by (rule encode_facts)

theorem encode_one_id_per_character_witness:
  "is_fitted tok_ab
   \<and> encode tok_ab (lit ''abz'') False = Inr [PInt 2, PInt 3, PInt 1]
   \<and> length [PInt 2, PInt 3, PInt 1] = length (lit ''abz'')
   \<and> encode tok_ab (lit ''abz'') True = Inl (KeyError (PStr (lit ''z'')))
   \<and> encode tok_ab (lit ''ab'') True = Inr [PInt 2, PInt 3]
   \<and> is_fitted tok_plain
   \<and> encode tok_plain (lit ''abz'') False = encode tok_plain (lit ''abz'') True
   \<and> encode tok_plain (lit ''abz'') False = Inl (KeyError (PStr (lit ''z'')))"
proof -
  have f: "is_fitted tok_ab" and g: "is_fitted tok_plain"
    by code_simp+
  note ab = encode_one_id_per_character [OF f, of "lit ''abz''" True]
  note ab2 = encode_one_id_per_character [OF f, of "lit ''ab''" True]
  note pl = encode_one_id_per_character [OF g, of "lit ''abz''" True]
  have u: "unk_id tok_ab \<noteq> PNone" and n: "unk_id tok_plain = PNone"
    by (simp_all add: tok_ab_def tok_plain_def)
  have split: "lit ''abz'' = lit ''ab'' @ 122 # [] \<and> (\<forall>x\<in>set (lit ''ab''). [x] \<in> set (keys (stoi tok_ab)))
      \<and> [122] \<notin> set (keys (stoi tok_ab))"
    by code_simp
  have split': "lit ''abz'' = lit ''ab'' @ 122 # [] \<and> (\<forall>x\<in>set (lit ''ab''). [x] \<in> set (keys (stoi tok_plain)))
      \<and> [122] \<notin> set (keys (stoi tok_plain))"
    by code_simp
  have all: "\<forall>c\<in>set (lit ''ab''). [c] \<in> set (keys (stoi tok_ab))"
    by code_simp
  have z: "[122] = lit ''z''"
    by (simp add: lit_def)
  have "encode tok_ab (lit ''abz'') False = Inr (map (per_char tok_ab) (lit ''abz''))"
    using ab [THEN conjunct2, THEN conjunct1, rule_format, OF u] .
  moreover have "map (per_char tok_ab) (lit ''abz'') = [PInt 2, PInt 3, PInt 1]"
    by code_simp
  moreover have "encode tok_ab (lit ''abz'') True = Inl (KeyError (PStr [122]))"
    using ab [THEN conjunct2, THEN conjunct2, THEN conjunct2, THEN conjunct2, rule_format, OF split] .
  moreover have "encode tok_ab (lit ''ab'') True = Inr (map (per_char tok_ab) (lit ''ab''))"
    using ab2 [THEN conjunct2, THEN conjunct2, THEN conjunct1, rule_format, OF all [rule_format]] .
  moreover have "map (per_char tok_ab) (lit ''ab'') = [PInt 2, PInt 3]"
    by code_simp
  moreover have "encode tok_plain (lit ''abz'') False = encode tok_plain (lit ''abz'') True"
    using pl [THEN conjunct2, THEN conjunct2, THEN conjunct2, THEN conjunct1, rule_format, OF n] .
  moreover have "encode tok_plain (lit ''abz'') True = Inl (KeyError (PStr [122]))"
    using pl [THEN conjunct2, THEN conjunct2, THEN conjunct2, THEN conjunct2, rule_format, OF split'] .
  moreover have "length [PInt 2, PInt 3, PInt 1] = length (lit ''abz'')"
    by (simp add: lit_def)
  ultimately show ?thesis
    using f g z by simp
qed

text \<open>
  C10. A tokenizer that \<open>fit\<close> has built with the special tokens has the pad id 0 and the
  unknown id 1, and \<open>encode\<close>, strict or not, never returns the pad id: every id it returns
  is an integer from 1 on.
\<close>

theorem encode_never_outputs_pad:
  assumes "fit files self src True mf = (None, tok)" and "encode tok text strict = Inr out"
  shows "pad_id tok = PInt 0 \<and> unk_id tok = PInt 1 \<and> pad_id tok \<notin> set out
       \<and> (\<forall>x\<in>set out. \<exists>i. x = PInt i \<and> 1 \<le> i)"
proof -
  obtain cs where tok: "tok = fitted_state self True cs"
    using fit_success [OF assms(1)] by blast
  have f: "is_fitted tok"
    by (simp add: tok fitted_state_is_fitted)
  have out: "out = map (per_char tok) text"
    using encode_facts [OF f, of "text" strict,
        THEN conjunct1, rule_format, OF assms(2)] by simp
  have all: "\<forall>x\<in>set out. \<exists>i. x = PInt i \<and> 1 \<le> i"
    unfolding out tok using per_char_fitted [of self cs] by auto
  then have "PInt 0 \<notin> set out"
    by fastforce
  then show ?thesis
    using all by (simp add: tok fitted_state_fields)
qed

theorem encode_never_outputs_pad_witness:
  "fit no_files init (SrcStr (lit ''ab'')) True 1 = (None, tok_ab)
   \<and> encode tok_ab (lit ''abz'') False = Inr [PInt 2, PInt 3, PInt 1]
   \<and> pad_id tok_ab = PInt 0 \<and> unk_id tok_ab = PInt 1
   \<and> pad_id tok_ab \<notin> set [PInt 2, PInt 3, PInt 1]"
proof -
  have e: "encode tok_ab (lit ''abz'') False = Inr [PInt 2, PInt 3, PInt 1]"
    by code_simp
  show ?thesis
    using fit_ab e encode_never_outputs_pad [OF fit_ab e] by simp
qed




text \<open>
  C8, as amended. On a fitted tokenizer, when one of the ids is not a key of \<open>itos\<close> and is
  not dropped before the lookup, \<open>decode\<close> raises the \<open>KeyError\<close> of the first such id:
  nothing is returned and nothing is substituted. The exception carries the id and not its
  position. The ids dropped before the lookup are those equal to the pad id or the unknown
  id when \<open>decode\<close> skips the special ids and both are configured. After \<open>fit\<close> every id
  that is dropped is a key of \<open>itos\<close>, so that every id that is not a key of \<open>itos\<close> is
  reported.
\<close>

theorem decode_unknown_id:
  assumes "is_fitted tok"
    and "\<exists>i\<in>set ids. i \<notin> set (keys (itos tok))
            \<and> (\<not> skipped tok skip i \<or> fit files self src inc mf = (None, tok))"
  shows "\<exists>pre i post. ids = pre @ i # post
           \<and> (\<forall>j\<in>set pre. j \<in> set (keys (itos tok)) \<or> skipped tok skip j)
           \<and> i \<notin> set (keys (itos tok)) \<and> \<not> skipped tok skip i
           \<and> decode tok ids skip = Inl (KeyError (PInt i))"
proof (rule decode_first_missing [OF assms(1)])
  obtain i where i: "i \<in> set ids" "i \<notin> set (keys (itos tok))"
    and d: "\<not> skipped tok skip i \<or> fit files self src inc mf = (None, tok)"
    using assms(2) by blast
  have "\<not> skipped tok skip i"
    using d i(2) fit_skipped_present [of files self src inc mf tok skip i] by blast
  then show "\<exists>i\<in>set ids. i \<notin> set (keys (itos tok)) \<and> \<not> skipped tok skip i"
    using i by blast
qed

theorem decode_unknown_id_witness:
  "fit no_files init (SrcStr (lit ''ab'')) True 1 = (None, tok_ab)
   \<and> is_fitted tok_ab
   \<and> 999999 \<notin> set (keys (itos tok_ab))
   \<and> decode tok_ab [2, 999999] True = Inl (KeyError (PInt 999999))
   \<and> (\<exists>pre i post. [2, 999999] = pre @ i # post
           \<and> (\<forall>j\<in>set pre. j \<in> set (keys (itos tok_ab)) \<or> skipped tok_ab True j)
           \<and> i \<notin> set (keys (itos tok_ab)) \<and> \<not> skipped tok_ab True i
           \<and> decode tok_ab [2, 999999] True = Inl (KeyError (PInt i)))
   \<and> load_data no_atoi init absent_doc = (None, tok_absent)
   \<and> is_fitted tok_absent
   \<and> decode tok_absent [5, 0, 7] True = Inl (KeyError (PInt 7))
   \<and> (\<exists>pre i post. [5, 0, 7] = pre @ i # post
           \<and> (\<forall>j\<in>set pre. j \<in> set (keys (itos tok_absent)) \<or> skipped tok_absent True j)
           \<and> i \<notin> set (keys (itos tok_absent)) \<and> \<not> skipped tok_absent True i
           \<and> decode tok_absent [5, 0, 7] True = Inl (KeyError (PInt i)))"
proof -
  have f: "is_fitted tok_ab" and f': "is_fitted tok_absent"
    by code_simp+
  have a: "999999 \<notin> set (keys (itos tok_ab))"
    by code_simp
  then have ex: "\<exists>i\<in>set [2, 999999]. i \<notin> set (keys (itos tok_ab))
      \<and> (\<not> skipped tok_ab True i \<or> fit no_files init (SrcStr (lit ''ab'')) True 1 = (None, tok_ab))"
    using fit_ab by simp
  have "7 \<notin> set (keys (itos tok_absent)) \<and> \<not> skipped tok_absent True 7"
    by code_simp
  then have ex': "\<exists>i\<in>set [5, 0, 7]. i \<notin> set (keys (itos tok_absent))
      \<and> (\<not> skipped tok_absent True i
          \<or> fit no_files init (SrcStr (lit ''ab'')) True 1 = (None, tok_absent))"
    by simp
  have "decode tok_ab [2, 999999] True = Inl (KeyError (PInt 999999))"
    "decode tok_absent [5, 0, 7] True = Inl (KeyError (PInt 7))"
    by code_simp+
  then show ?thesis
    using fit_ab f f' a load_absent
      decode_unknown_id [OF f ex] decode_unknown_id [OF f' ex']
    by (intro conjI)
qed

text \<open>
  The claim as stated fails twice. The unknown id at position 0 and the unknown id at
  position 1 raise the same exception, which therefore does not tell the position. And
  after \<open>load\<close> of a document whose pad id 5 is the id of no character, \<open>decode\<close> drops the
  id 5, which is not a key of \<open>itos\<close>, and returns a text.
\<close>

theorem decode_unknown_id_counterexample:
  "decode tok_ab [999999] True = Inl (KeyError (PInt 999999))
   \<and> decode tok_ab [2, 999999] True = Inl (KeyError (PInt 999999))
   \<and> load_data no_atoi init absent_doc = (None, tok_absent)
   \<and> is_fitted tok_absent
   \<and> 5 \<notin> set (keys (itos tok_absent))
   \<and> decode tok_absent [5, 0] True = Inr (lit ''a'')"
  by code_simp

section \<open>The claim on \<open>save\<close> followed by \<open>from_file\<close>\<close>

lemma save_module_globals:
  "is_fitted self \<Longrightarrow> save module_globals self fs path = (Some (NameError ''tempfile''), fs)"
  by (simp add: save_def module_globals_def)

text \<open>
  In a module that binds \<open>json\<close> and \<open>tempfile\<close>, a tokenizer that \<open>fit\<close> has built is
  saved, unless a surrogate code point is among its characters, and \<open>from_file\<close> on the
  saved file returns an instance equal to it in every field.
\<close>

lemma persist_restore_when_imported:
  assumes "''json'' \<in> set g" and "''tempfile'' \<in> set g"
    and "fit files self src inc mf = (None, tok)"
  shows "save g tok fs path =
           (if encodable (payload tok) then (None, fs(path := Some (Json (payload tok))))
            else (Some UnicodeEncodeError, fs))
       \<and> from_file g atoi (fs(path := Some (Json (payload tok)))) path = Inr tok"
proof -
  obtain cs where cs: "distinct cs" "inc \<or> cs \<noteq> []" and tok: "tok = fitted_state self inc cs"
    using fit_success [OF assms(3)] by blast
  have f: "is_fitted tok"
    using cs(2) by (simp add: tok fitted_state_is_fitted)
  have d: "distinct (map fst (stoi tok))" "distinct (map snd (stoi tok))"
    using distinct_keys_spec_vocab [OF cs(1), of inc] distinct_vals_spec_vocab [of inc cs]
    by (simp_all add: tok fitted_state_fields)
  have "load_data atoi init (payload tok) = (None, tok)"
    using load_payload [OF d, of atoi init] loaded_fitted [of init self inc cs]
      fitted_state_any_self [of init inc cs self] by (simp add: tok)
  then have "from_file g atoi (fs(path := Some (Json (payload tok)))) path = Inr tok"
    using assms(1) by (simp add: from_file_def load_def)
  moreover have "save g tok fs path =
           (if encodable (payload tok) then (None, fs(path := Some (Json (payload tok))))
            else (Some UnicodeEncodeError, fs))"
    using f assms(1,2) by (simp add: save_def)
  ultimately show ?thesis by simp
qed

text \<open>
  C1. The module imports neither \<open>tempfile\<close> nor \<open>json\<close> (lines 1 to 4). The tokenizer
  fitted on \<open>ab\<close> is not saved: \<open>save\<close> raises \<open>NameError\<close> at line 114 and writes nothing.
  \<open>from_file\<close> on a file that holds the payload of this tokenizer raises \<open>NameError\<close> at
  line 136 and returns no instance.
\<close>

theorem persist_raises_name_error:
  "fit no_files init (SrcStr (lit ''ab'')) True 1 = (None, tok_ab)
   \<and> save module_globals tok_ab no_docs (lit ''tok.json'') = (Some (NameError ''tempfile''), no_docs)
   \<and> from_file module_globals no_atoi saved_ab (lit ''tok.json'') = Inl (NameError ''json'')"
proof -
  have "is_fitted tok_ab"
    by code_simp
  then have "save module_globals tok_ab no_docs (lit ''tok.json'') = (Some (NameError ''tempfile''), no_docs)"
    by (rule save_module_globals)
  moreover have "saved_ab (lit ''tok.json'') \<noteq> None"
    by (simp add: saved_ab_def)
  then have "from_file module_globals no_atoi saved_ab (lit ''tok.json'') = Inl (NameError ''json'')"
    by (simp add: from_file_def load_module_globals)
  ultimately show ?thesis
    using fit_ab by simp
qed

end
